theory Spec2Isabelle
  imports Complex_Main "HOL-Library.Log_Nat"
begin

section \<open>Text: code points, whitespace, case mapping and normalisation\<close>

text \<open>
  A Python \<open>str\<close> is a sequence of Unicode code points, so a string is a list of code
  point numbers (not of bytes). \<open>of_char\<close> gives the code point of an ASCII character.
\<close>

type_synonym cp = nat
type_synonym ustring = "cp list"

definition ustr :: "string \<Rightarrow> ustring" where
  "ustr s = map of_char s"

text \<open>
  \<open>str.strip()\<close> without argument removes the characters for which \<open>str.isspace\<close>
  holds: U+0009..U+000D, U+001C..U+0020, U+0085, U+00A0, U+1680, U+2000..U+200A, U+2028,
  U+2029, U+202F, U+205F and U+3000.
\<close>

definition is_space :: "cp \<Rightarrow> bool" where
  "is_space c \<longleftrightarrow>
     (9 \<le> c \<and> c \<le> 13) \<or> (28 \<le> c \<and> c \<le> 32) \<or> c = 133 \<or> c = 160 \<or> c = 5760 \<or>
     (8192 \<le> c \<and> c \<le> 8202) \<or> c = 8232 \<or> c = 8233 \<or> c = 8239 \<or> c = 8287 \<or> c = 12288"

definition lstrip :: "ustring \<Rightarrow> ustring" where
  "lstrip s = dropWhile is_space s"

definition rstrip :: "ustring \<Rightarrow> ustring" where
  "rstrip s = rev (dropWhile is_space (rev s))"

definition strip :: "ustring \<Rightarrow> ustring" where
  "strip s = rstrip (lstrip s)"

text \<open>
  \<open>str.upper()\<close> and \<open>unicodedata.normalize\<close> read the Unicode Character Database. Its
  ASCII rows are written out below (only \<open>a\<close>..\<open>z\<close> have an uppercase form, no ASCII
  character decomposes, every ASCII character is a starter). The rows of the other code
  points are a parameter \<open>U\<close> of the model: the full uppercase mapping of a code point,
  its full compatibility decomposition, and its canonical combining class. The database
  also has the lowercase mapping of a code point (what \<open>str.lower()\<close> reads); \<open>_norm\<close>
  does not use it, and it serves to say which characters are one letter in two cases.
\<close>

record ucd =
  upper_of :: "cp \<Rightarrow> cp list"
  lower_of :: "cp \<Rightarrow> cp list"
  decomp_of :: "cp \<Rightarrow> cp list"
  ccc_of :: "cp \<Rightarrow> nat"

definition is_ascii :: "cp \<Rightarrow> bool" where
  "is_ascii c \<longleftrightarrow> c < 128"

definition ascii_upper :: "cp \<Rightarrow> cp" where
  "ascii_upper c = (if 97 \<le> c \<and> c \<le> 122 then c - 32 else c)"

definition upper_cp :: "ucd \<Rightarrow> cp \<Rightarrow> cp list" where
  "upper_cp U c = (if is_ascii c then [ascii_upper c] else upper_of U c)"

definition ascii_lower :: "cp \<Rightarrow> cp" where
  "ascii_lower c = (if 65 \<le> c \<and> c \<le> 90 then c + 32 else c)"

definition lower_cp :: "ucd \<Rightarrow> cp \<Rightarrow> cp list" where
  "lower_cp U c = (if is_ascii c then [ascii_lower c] else lower_of U c)"

definition upper :: "ucd \<Rightarrow> ustring \<Rightarrow> ustring" where
  "upper U s = concat (map (upper_cp U) s)"

definition decomp_cp :: "ucd \<Rightarrow> cp \<Rightarrow> cp list" where
  "decomp_cp U c = (if is_ascii c then [c] else decomp_of U c)"

definition ccc :: "ucd \<Rightarrow> cp \<Rightarrow> nat" where
  "ccc U c = (if is_ascii c then 0 else ccc_of U c)"

text \<open>
  Canonical ordering, as \<open>unicodedata\<close> performs it after decomposing: every code point
  with a non-zero combining class moves left past the code points before it whose class
  is greater, and never past a starter. The accumulator holds the output so far, last
  code point first.
\<close>

fun insert_mark :: "(cp \<Rightarrow> nat) \<Rightarrow> cp \<Rightarrow> cp list \<Rightarrow> cp list" where
  "insert_mark k c [] = [c]"
| "insert_mark k c (p # ps) =
     (if k p = 0 \<or> k p \<le> k c then c # p # ps else p # insert_mark k c ps)"

definition canonical_order :: "(cp \<Rightarrow> nat) \<Rightarrow> ustring \<Rightarrow> ustring" where
  "canonical_order k s =
     rev (foldl (\<lambda>acc c. if k c = 0 then c # acc else insert_mark k c acc) [] s)"

definition nfkd :: "ucd \<Rightarrow> ustring \<Rightarrow> ustring" where
  "nfkd U s = canonical_order (ccc U) (concat (map (decomp_cp U) s))"

text \<open>\<open>.encode("ascii", "ignore").decode("ascii")\<close> drops every non-ASCII code point.\<close>

definition ascii_ignore :: "ustring \<Rightarrow> ustring" where
  "ascii_ignore s = filter is_ascii s"

text \<open>
  A name cell is a string or missing (\<open>None\<close>, \<open>NaN\<close>: what \<open>pd.isna\<close> accepts).
  \<open>norm_str\<close> is the function \<open>_norm\<close> of \<open>routes/main.py\<close>.
\<close>

datatype label = Missing | Text ustring

fun norm_str :: "ucd \<Rightarrow> label \<Rightarrow> ustring" where
  "norm_str U Missing = []"
| "norm_str U (Text s) = ascii_ignore (nfkd U (upper U (strip s)))"

text \<open>
  What one code point of the stripped input contributes to the result of \<open>norm_str\<close>:
  the ASCII part of the decomposition of its uppercase form.
\<close>

definition key_of :: "ucd \<Rightarrow> cp \<Rightarrow> ustring" where
  "key_of U c = ascii_ignore (concat (map (decomp_cp U) (upper_cp U c)))"

subsection \<open>Strings that differ only in case, surrounding whitespace or diacritics\<close>

text \<open>
  A combining mark is a code point of non-zero combining class. Two characters are one
  letter in two cases when their lowercase forms are equal; the sharp s, U+00DF, and the
  capital sharp s, U+1E9E, are such a pair, the one pair that the steps below leave out.
  Two strings differ only in letter case, surrounding whitespace or diacritics when one
  is reached from the other by these steps, in either direction and any number of times:
  a character that is not whitespace is replaced by one of the same lowercase form; a
  whitespace character is added or removed at either end; a combining mark is added or
  removed right after a character that is not whitespace; a composed character (a base
  character followed by combining marks in its decomposition) is replaced by its base
  character.
\<close>

definition sharp_s_pair :: "cp \<Rightarrow> cp \<Rightarrow> bool" where
  "sharp_s_pair c d \<longleftrightarrow> (c = 223 \<and> d = 7838) \<or> (c = 7838 \<and> d = 223)"

definition is_mark :: "ucd \<Rightarrow> cp \<Rightarrow> bool" where
  "is_mark U m \<longleftrightarrow> ccc U m \<noteq> 0"

inductive variant :: "ucd \<Rightarrow> ustring \<Rightarrow> ustring \<Rightarrow> bool" for U :: ucd where
  v_refl: "variant U a a"
| v_sym: "variant U a b \<Longrightarrow> variant U b a"
| v_trans: "variant U a b \<Longrightarrow> variant U b c \<Longrightarrow> variant U a c"
| v_case: "\<not> is_space c \<Longrightarrow> \<not> is_space d \<Longrightarrow> lower_cp U c = lower_cp U d \<Longrightarrow>
     \<not> sharp_s_pair c d \<Longrightarrow> variant U (xs @ c # ys) (xs @ d # ys)"
| v_space_left: "is_space w \<Longrightarrow> variant U (w # a) a"
| v_space_right: "is_space w \<Longrightarrow> variant U (a @ [w]) a"
| v_mark: "\<not> is_space p \<Longrightarrow> is_mark U m \<Longrightarrow> variant U (xs @ p # m # ys) (xs @ p # ys)"
| v_composed: "\<not> is_space c \<Longrightarrow> \<not> is_space b \<Longrightarrow> \<not> is_ascii c \<Longrightarrow>
     decomp_cp U c = b # ms \<Longrightarrow> ms \<noteq> [] \<Longrightarrow> list_all (is_mark U) ms \<Longrightarrow> \<not> is_mark U b \<Longrightarrow>
     variant U (xs @ c # ys) (xs @ b # ys)"

text \<open>
  Three facts of the Unicode Character Database that the comparison of such strings
  rests on: a combining mark is not whitespace and neither it nor its uppercase form
  decomposes into ASCII; a composed character and its base character have uppercase forms
  with the same ASCII part; two characters of equal lowercase form, one of them not
  ASCII and the two not the sharp s pair, have uppercase forms with the same ASCII part.
  (For two ASCII characters this is no assumption: it follows from the ASCII rows.)
\<close>

definition marks_vanish :: "ucd \<Rightarrow> bool" where
  "marks_vanish U \<longleftrightarrow> (\<forall>m. is_mark U m \<longrightarrow> \<not> is_space m \<and> key_of U m = [])"

definition composed_like_base :: "ucd \<Rightarrow> bool" where
  "composed_like_base U \<longleftrightarrow>
     (\<forall>c b ms. \<not> is_ascii c \<and> decomp_cp U c = b # ms \<and> ms \<noteq> [] \<and> list_all (is_mark U) ms \<and>
        \<not> is_mark U b \<longrightarrow> key_of U c = key_of U b)"

definition case_pairs_agree :: "ucd \<Rightarrow> bool" where
  "case_pairs_agree U \<longleftrightarrow>
     (\<forall>c d. (\<not> is_ascii c \<or> \<not> is_ascii d) \<and> lower_cp U c = lower_cp U d \<and>
        \<not> sharp_s_pair c d \<longrightarrow> key_of U c = key_of U d)"

subsection \<open>An excerpt of the Unicode Character Database\<close>

text \<open>
  The rows of Latin-1 Supplement (U+0080..U+00FF), of the combining diacritical marks
  (U+0300..U+036F), of U+0178, the uppercase form of U+00FF, and of U+1E9E, the capital
  sharp s (its own uppercase form, without decomposition). It is exact on these code
  points and is used to evaluate the model on strings made of them; elsewhere it is the
  identity.
\<close>

definition latin1_upper :: "cp \<Rightarrow> cp list" where
  "latin1_upper c =
     (if c = 181 then [924]
      else if c = 223 then [83, 83]
      else if 224 \<le> c \<and> c \<le> 254 \<and> c \<noteq> 247 then [c - 32]
      else if c = 255 then [376]
      else if c = 837 then [921]
      else [c])"

definition latin1_lower :: "cp \<Rightarrow> cp list" where
  "latin1_lower c =
     (if 192 \<le> c \<and> c \<le> 222 \<and> c \<noteq> 215 then [c + 32]
      else if c = 376 then [255]
      else if c = 7838 then [223]
      else [c])"

definition latin1_decomp_table :: "(cp \<times> cp list) list" where
  "latin1_decomp_table =
     [(160, [32]), (168, [32, 776]), (170, [97]), (175, [32, 772]), (178, [50]), (179, [51]),
      (180, [32, 769]), (181, [956]), (184, [32, 807]), (185, [49]), (186, [111]),
      (188, [49, 8260, 52]), (189, [49, 8260, 50]), (190, [51, 8260, 52]),
      (192, [65, 768]), (193, [65, 769]), (194, [65, 770]), (195, [65, 771]), (196, [65, 776]),
      (197, [65, 778]), (199, [67, 807]), (200, [69, 768]), (201, [69, 769]), (202, [69, 770]),
      (203, [69, 776]), (204, [73, 768]), (205, [73, 769]), (206, [73, 770]), (207, [73, 776]),
      (209, [78, 771]), (210, [79, 768]), (211, [79, 769]), (212, [79, 770]), (213, [79, 771]),
      (214, [79, 776]), (217, [85, 768]), (218, [85, 769]), (219, [85, 770]), (220, [85, 776]),
      (221, [89, 769]),
      (224, [97, 768]), (225, [97, 769]), (226, [97, 770]), (227, [97, 771]), (228, [97, 776]),
      (229, [97, 778]), (231, [99, 807]), (232, [101, 768]), (233, [101, 769]),
      (234, [101, 770]), (235, [101, 776]), (236, [105, 768]), (237, [105, 769]),
      (238, [105, 770]), (239, [105, 776]), (241, [110, 771]), (242, [111, 768]),
      (243, [111, 769]), (244, [111, 770]), (245, [111, 771]), (246, [111, 776]),
      (249, [117, 768]), (250, [117, 769]), (251, [117, 770]), (252, [117, 776]),
      (253, [121, 769]), (255, [121, 776]), (376, [89, 776]),
      (832, [768]), (833, [769]), (835, [787]), (836, [776, 769])]"

definition latin1_decomp :: "cp \<Rightarrow> cp list" where
  "latin1_decomp c = (case map_of latin1_decomp_table c of Some d \<Rightarrow> d | None \<Rightarrow> [c])"

definition latin1_ccc :: "cp \<Rightarrow> nat" where
  "latin1_ccc c =
     (if c < 768 \<or> 879 < c \<or> c = 847 then 0
      else if c = 789 \<or> c = 794 \<or> c = 856 then 232
      else if c = 795 then 216
      else if c = 801 \<or> c = 802 \<or> c = 807 \<or> c = 808 then 202
      else if 820 \<le> c \<and> c \<le> 824 then 1
      else if c = 837 then 240
      else if c = 860 \<or> c = 863 \<or> c = 866 then 233
      else if c = 861 \<or> c = 862 \<or> c = 864 \<or> c = 865 then 234
      else if (790 \<le> c \<and> c \<le> 793) \<or> (796 \<le> c \<and> c \<le> 819) \<or> (825 \<le> c \<and> c \<le> 828) \<or>
              (839 \<le> c \<and> c \<le> 841) \<or> c = 845 \<or> c = 846 \<or> (851 \<le> c \<and> c \<le> 854) \<or>
              c = 857 \<or> c = 858 then 220
      else 230)"

definition ucd_latin1 :: ucd where
  "ucd_latin1 = \<lparr>upper_of = latin1_upper, lower_of = latin1_lower, decomp_of = latin1_decomp,
       ccc_of = latin1_ccc\<rparr>"


section \<open>Numbers: Python floats and the conversion to integers\<close>

text \<open>
  A Python \<open>float\<close> is an IEEE 754 binary64 number. The finite floats are the rationals
  \<open>n / 2 ^ 1074\<close> whose integer \<open>n\<close> has at most 53 significant bits; every arithmetic
  operation returns the float nearest to the exact result, ties to the even one. \<open>rhe\<close>
  rounds a rational to the nearest integer, ties to even; \<open>round53\<close> rounds a non-negative
  rational to the nearest integer of at most 53 significant bits; \<open>fl\<close> rounds a
  rational to the nearest float. The totals are 64-bit integers, so no operation of the
  program reaches the largest float, and overflow to infinity is left out.
\<close>

definition rhe :: "rat \<Rightarrow> int" where
  "rhe a = (let f = \<lfloor>a\<rfloor>; r = a - of_int f in
            if r < 1 / 2 then f else if 1 / 2 < r then f + 1 else if even f then f else f + 1)"

definition round53 :: "rat \<Rightarrow> int" where
  "round53 a = (let k = bitlen \<lfloor>a\<rfloor> - 53 in
                 if k \<le> 0 then rhe a else rhe (a / 2 ^ nat k) * 2 ^ nat k)"

definition emin :: nat where
  "emin = 1074"

definition norm_min :: nat where
  "norm_min = 1022"

definition fl :: "rat \<Rightarrow> rat" where
  "fl x = (if 0 \<le> x then of_int (round53 (x * 2 ^ emin)) / 2 ^ emin
           else - (of_int (round53 (- x * 2 ^ emin)) / 2 ^ emin))"

text \<open>
  \<open>float(n)\<close> of an integer, the true division \<open>a / b\<close> of two integers (correctly
  rounded in Python), the product of two floats, and \<open>int(x)\<close> of a float, which
  truncates toward zero.
\<close>

definition py_float :: "int \<Rightarrow> rat" where
  "py_float n = fl (of_int n)"

definition true_div :: "int \<Rightarrow> int \<Rightarrow> rat" where
  "true_div a b = fl (of_int a / of_int b)"

definition fmul :: "rat \<Rightarrow> rat \<Rightarrow> rat" where
  "fmul x y = fl (x * y)"




definition trunc :: "rat \<Rightarrow> int" where
  "trunc x = (if 0 \<le> x then \<lfloor>x\<rfloor> else \<lceil>x\<rceil>)"

text \<open>
  The cast of a finite float64 value to \<open>int64\<close>, as \<open>astype(int)\<close> does it: the value
  is truncated toward zero, and a value outside the range of \<open>int64\<close> comes out as
  \<open>- 2 ^ 63\<close>, without an error.
\<close>

definition to_int64 :: "rat \<Rightarrow> int" where
  "to_int64 x = (let t = trunc x in if - (2 ^ 63) \<le> t \<and> t < 2 ^ 63 then t else - (2 ^ 63))"

section \<open>Regions, totals and their left join\<close>

text \<open>
  A row of the region frame \<open>gdf\<close> holds a geometry (of any type) and the display name
  \<open>REGION\<close>; line 35 adds the join key \<open>REGION_NORM\<close>, and the merge adds the column
  \<open>Total\<close> (the field \<open>Total_col\<close>).
\<close>

record 'g region =
  geometry :: 'g
  REGION :: label

record 'g keyed_region = "'g region" +
  REGION_NORM :: ustring

record 'g total_region = "'g keyed_region" +
  Total_col :: int

definition add_region_norm :: "ucd \<Rightarrow> 'g region \<Rightarrow> 'g keyed_region" where
  "add_region_norm U g =
     \<lparr>geometry = geometry g, REGION = REGION g, REGION_NORM = norm_str U (REGION g)\<rparr>"

text \<open>
  A row of the totals frame \<open>df_info\<close> after line 46 is the name of its region and its
  integer total; \<open>df_info[["REGION_NORM", "Total"]]\<close> is the list of keys and totals.
\<close>

type_synonym info_row = "label \<times> int"

definition info_keys :: "ucd \<Rightarrow> info_row list \<Rightarrow> (ustring \<times> int) list" where
  "info_keys U info = map (\<lambda>(name, total). (norm_str U name, total)) info"

text \<open>
  \<open>DataFrame.merge(right, on="REGION_NORM", how="left")\<close> is a left outer join: the left
  rows keep their order; a left row is paired with every right row of the same key, in the
  order of the right frame, and with a missing value when there is none.
\<close>

definition merge_left ::
  "'g keyed_region list \<Rightarrow> (ustring \<times> int) list \<Rightarrow> ('g keyed_region \<times> int option) list" where
  "merge_left left right =
     concat (map (\<lambda>l. case filter (\<lambda>r. fst r = REGION_NORM l) right of
                          [] \<Rightarrow> [(l, None)]
                        | ms \<Rightarrow> map (\<lambda>r. (l, Some (snd r))) ms) left)"

text \<open>
  The column \<open>Total\<close> of the right frame holds 64-bit integers. The merged column keeps
  them as they are when every left row has a match; as soon as one left row has none, the
  column holds a missing value and is a column of floats: every total of the column is
  converted to the nearest float.
\<close>

definition is_float_column :: "('g keyed_region \<times> int option) list \<Rightarrow> bool" where
  "is_float_column m = list_ex (\<lambda>p. snd p = None) m"

text \<open>
  Line 50: \<open>gdf["Total"].fillna(0).astype(int)\<close> on the merged column. On a column of
  integers it changes nothing; on a column of floats a missing value becomes 0 and every
  float is cast back to an integer.
\<close>

definition carried_total :: "bool \<Rightarrow> int \<Rightarrow> int" where
  "carried_total fcol n = (if fcol then to_int64 (py_float n) else n)"

definition fill_total :: "bool \<Rightarrow> 'g keyed_region \<times> int option \<Rightarrow> 'g total_region" where
  "fill_total fcol p =
     \<lparr>geometry = geometry (fst p), REGION = REGION (fst p), REGION_NORM = REGION_NORM (fst p),
      Total_col = (case snd p of None \<Rightarrow> 0 | Some n \<Rightarrow> carried_total fcol n)\<rparr>"

text \<open>Lines 35, 43, 49 and 50: the reconciliation of the regions with the coerced totals.\<close>

definition merge_totals :: "ucd \<Rightarrow> 'g region list \<Rightarrow> info_row list \<Rightarrow> 'g total_region list" where
  "merge_totals U gdf info =
     (let m = merge_left (map (add_region_norm U) gdf) (info_keys U info)
      in map (fill_total (is_float_column m)) m)"

text \<open>The input region of an output row, the totals rows that share a region's key.\<close>

definition region_of :: "'g total_region \<Rightarrow> 'g region" where
  "region_of r = \<lparr>geometry = geometry r, REGION = REGION r\<rparr>"

definition matching :: "ucd \<Rightarrow> 'g region \<Rightarrow> info_row list \<Rightarrow> info_row list" where
  "matching U g info = filter (\<lambda>t. norm_str U (fst t) = norm_str U (REGION g)) info"

text \<open>Some region of the frame has no totals row of its key.\<close>

definition has_unmatched :: "ucd \<Rightarrow> 'g region list \<Rightarrow> info_row list \<Rightarrow> bool" where
  "has_unmatched U gdf info = list_ex (\<lambda>g. matching U g info = []) gdf"

definition with_total :: "ucd \<Rightarrow> 'g region \<Rightarrow> int \<Rightarrow> 'g total_region" where
  "with_total U g n =
     \<lparr>geometry = geometry g, REGION = REGION g, REGION_NORM = norm_str U (REGION g), Total_col = n\<rparr>"

text \<open>The output rows of one region, in a frame whose merged column is of floats or not.\<close>

definition region_rows :: "ucd \<Rightarrow> bool \<Rightarrow> 'g region \<Rightarrow> info_row list \<Rightarrow> 'g total_region list" where
  "region_rows U fcol g info =
     (case matching U g info of
        [] \<Rightarrow> [with_total U g 0]
      | ms \<Rightarrow> map (\<lambda>t. with_total U g (carried_total fcol (snd t))) ms)"

section \<open>The totals of the spreadsheet\<close>

text \<open>
  A cell of the column \<open>Total\<close> as \<open>read_excel\<close> returns it: empty, a number, or text.
  A number of a sheet is a float, and \<open>read_excel\<close> hands an integral one over as a
  Python integer. \<open>pd.to_numeric(..., errors="coerce")\<close> keeps a number, makes an empty
  cell NaN and parses text; the parser is a parameter \<open>P\<close> of the model, which returns
  NaN for text that is no number, an integer for the text of an integer and a float for
  other numbers. A float of the column is NaN, an infinity or finite. Integers beyond the
  range of the floats are outside the model.
\<close>

datatype error = IntCastingNaNError | ValueError

datatype f64 = NaN | PInf | NInf | Fin rat

datatype num = IntV int | FloatV f64

datatype cell = Blank | Num rat | Str ustring

fun to_numeric :: "(ustring \<Rightarrow> num) \<Rightarrow> cell \<Rightarrow> num" where
  "to_numeric P Blank = FloatV NaN"
| "to_numeric P (Num x) = (if of_int \<lfloor>x\<rfloor> = x then IntV \<lfloor>x\<rfloor> else FloatV (Fin x))"
| "to_numeric P (Str s) = P s"

text \<open>
  The type of the column that \<open>to_numeric\<close> returns: \<open>int64\<close> when every value is an
  integer of that range; \<open>uint64\<close> when every value is an integer from 0 to
  \<open>2 ^ 64 - 1\<close>; and \<open>float64\<close> otherwise, every integer converted to the nearest float.
\<close>

definition in_int64 :: "int \<Rightarrow> bool" where
  "in_int64 n \<longleftrightarrow> - (2 ^ 63) \<le> n \<and> n < 2 ^ 63"

definition in_uint64 :: "int \<Rightarrow> bool" where
  "in_uint64 n \<longleftrightarrow> 0 \<le> n \<and> n < 2 ^ 64"

fun int_column :: "(int \<Rightarrow> bool) \<Rightarrow> num list \<Rightarrow> int list option" where
  "int_column R [] = Some []"
| "int_column R (IntV n # vs) =
     (if R n then map_option ((#) n) (int_column R vs) else None)"
| "int_column R (FloatV v # vs) = None"

fun as_float :: "num \<Rightarrow> f64" where
  "as_float (IntV n) = Fin (py_float n)"
| "as_float (FloatV v) = v"

fun fillna0 :: "f64 \<Rightarrow> f64" where
  "fillna0 NaN = Fin 0"
| "fillna0 v = v"

fun is_finite :: "f64 \<Rightarrow> bool" where
  "is_finite (Fin x) = True"
| "is_finite v = False"

text \<open>
  The cast of one value to \<open>int64\<close>: of a float, with a value that is not finite coming
  out as \<open>- 2 ^ 63\<close> like a finite one out of range; of an unsigned integer, modulo
  \<open>2 ^ 64\<close>.
\<close>

fun to_int :: "f64 \<Rightarrow> int" where
  "to_int (Fin x) = to_int64 x"
| "to_int v = - (2 ^ 63)"

definition wrap64 :: "int \<Rightarrow> int" where
  "wrap64 n = (if n < 2 ^ 63 then n else n - 2 ^ 64)"

text \<open>
  \<open>Series.astype(int)\<close> on a column of floats raises \<open>IntCastingNaNError\<close> when a value
  of the column is not finite, and casts every value otherwise.
\<close>

definition astype_int :: "f64 list \<Rightarrow> error + int list" where
  "astype_int col = (if list_all is_finite col then Inr (map to_int col)
                     else Inl IntCastingNaNError)"

text \<open>
  Lines 44 to 46. On a column of integers \<open>fillna(0)\<close> changes nothing, and \<open>astype(int)\<close>
  changes nothing on \<open>int64\<close> and casts \<open>uint64\<close>.
\<close>

definition coerce_totals :: "(ustring \<Rightarrow> num) \<Rightarrow> cell list \<Rightarrow> error + int list" where
  "coerce_totals P col =
     (let vs = map (to_numeric P) col in
      case int_column in_int64 vs of
        Some ns \<Rightarrow> Inr ns
      | None \<Rightarrow>
          (case int_column in_uint64 vs of
             Some ns \<Rightarrow> Inr (map wrap64 ns)
           | None \<Rightarrow> astype_int (map fillna0 (map as_float vs))))"

text \<open>
  Lines 35 to 50: a row of the sheet is the name of a region and its raw total; the
  reconciliation coerces the totals and joins them to the regions.
\<close>

type_synonym sheet_row = "label \<times> cell"

definition reconcile ::
  "ucd \<Rightarrow> (ustring \<Rightarrow> num) \<Rightarrow> 'g region list \<Rightarrow> sheet_row list \<Rightarrow> error + 'g total_region list" where
  "reconcile U P gdf sheet =
     (case coerce_totals P (map snd sheet) of
        Inl e \<Rightarrow> Inl e
      | Inr totals \<Rightarrow> Inr (merge_totals U gdf (zip (map fst sheet) totals)))"

subsection \<open>An excerpt of the number parser\<close>

text \<open>
  What \<open>pd.to_numeric\<close> makes of decimal text. The words \<open>inf\<close> and \<open>infinity\<close>, in
  either case of their letters and after an optional sign, are the infinities. Other
  text is a number when, between optional blanks (space, tab, line feed, vertical tab,
  form feed, carriage return), it is an optional sign, a run of digits with an optional
  decimal point in it, before it or after it, and an optional exponent: \<open>e\<close> or \<open>E\<close>, an
  optional sign and a run of digits. Without decimal point and exponent the number is an
  integer; otherwise it is read as the float nearest to its value, and as no number when
  that is beyond the range of the floats. All other text is no number.
\<close>

definition is_blank :: "cp \<Rightarrow> bool" where
  "is_blank c \<longleftrightarrow> (9 \<le> c \<and> c \<le> 13) \<or> c = 32"

definition trim_blanks :: "ustring \<Rightarrow> ustring" where
  "trim_blanks s = rev (dropWhile is_blank (rev (dropWhile is_blank s)))"

definition is_digit :: "cp \<Rightarrow> bool" where
  "is_digit c \<longleftrightarrow> 48 \<le> c \<and> c \<le> 57"

definition digits_value :: "ustring \<Rightarrow> int" where
  "digits_value ds = foldl (\<lambda>a c. 10 * a + (int c - 48)) 0 ds"

fun split_sign :: "ustring \<Rightarrow> bool \<times> ustring" where
  "split_sign [] = (False, [])"
| "split_sign (c # cs) =
     (if c = 45 then (True, cs) else if c = 43 then (False, cs) else (False, c # cs))"

definition signed :: "bool \<Rightarrow> int \<Rightarrow> int" where
  "signed neg n = (if neg then - n else n)"

text \<open>The exponent after the mantissa: nothing, a well-formed exponent, or other text.\<close>

fun parse_exponent :: "ustring \<Rightarrow> int option" where
  "parse_exponent [] = Some 0"
| "parse_exponent (c # cs) =
     (if c = 101 \<or> c = 69 then
        (case split_sign cs of (neg, ds) \<Rightarrow>
           if ds \<noteq> [] \<and> list_all is_digit ds then Some (signed neg (digits_value ds))
           else None)
      else None)"

definition emax :: nat where
  "emax = 1024"

definition of_decimal :: "int \<Rightarrow> int \<Rightarrow> f64" where
  "of_decimal m e =
     (let v = (if 0 \<le> e then of_int m * 10 ^ nat e else of_int m / 10 ^ nat (- e)) in
      if \<bar>fl v\<bar> < 2 ^ emax then Fin (fl v) else NaN)"

definition parse_number :: "ustring \<Rightarrow> num" where
  "parse_number t =
     (case split_sign t of (neg, u) \<Rightarrow>
        let ip = takeWhile is_digit u;
            r = dropWhile is_digit u;
            point = (r \<noteq> [] \<and> hd r = 46);
            fp = (if point then takeWhile is_digit (tl r) else []);
            r' = (if point then dropWhile is_digit (tl r) else r)
        in
        if ip = [] \<and> fp = [] then FloatV NaN
        else case parse_exponent r' of
               None \<Rightarrow> FloatV NaN
             | Some e \<Rightarrow>
                 if \<not> point \<and> r' = [] then IntV (signed neg (digits_value ip))
                 else FloatV (of_decimal (signed neg (digits_value (ip @ fp)))
                                (e - int (length fp))))"

definition sample_parse :: "ustring \<Rightarrow> num" where
  "sample_parse s =
     (let w = map ascii_lower s in
      if w = ustr ''inf'' \<or> w = ustr ''+inf'' \<or> w = ustr ''infinity'' \<or> w = ustr ''+infinity''
      then FloatV PInf
      else if w = ustr ''-inf'' \<or> w = ustr ''-infinity'' then FloatV NInf
      else parse_number (trim_blanks s))"

section \<open>The scale of the map\<close>

text \<open>
  Lines 86 to 88: \<open>Series.min()\<close> of an empty series is NaN, and \<open>int(NaN)\<close> raises
  \<open>ValueError\<close>.
\<close>

fun series_min :: "int list \<Rightarrow> int option" where
  "series_min [] = None"
| "series_min (x # xs) = Some (fold min xs x)"

fun series_max :: "int list \<Rightarrow> int option" where
  "series_max [] = None"
| "series_max (x # xs) = Some (fold max xs x)"

fun py_int :: "int option \<Rightarrow> error + int" where
  "py_int None = Inl ValueError"
| "py_int (Some n) = Inr n"

text \<open>
  Lines 90 to 97. \<open>list(range(min_val, min_val + 9))\<close> is the list of the integers from
  \<open>min_val\<close> to \<open>min_val + 9 - 1\<close>; \<open>step\<close> is a float, \<open>i * step\<close> a product of floats,
  and \<open>bins[-1] = max_val\<close> replaces the last element.
\<close>

definition build_bins :: "int \<Rightarrow> int \<Rightarrow> int list" where
  "build_bins min_val max_val =
     (if max_val - min_val = 0 then [min_val .. min_val + 9 - 1]
      else let step = true_div (max_val - min_val) 7;
               bins = map (\<lambda>i. min_val + trunc (fmul (py_float (int i)) step)) [0..<8]
           in bins[length bins - 1 := max_val])"

record scale =
  min_val :: int
  max_val :: int
  bins :: "int list"

definition build_scale :: "int list \<Rightarrow> error + scale" where
  "build_scale serie =
     (case py_int (series_min serie) of
        Inl e \<Rightarrow> Inl e
      | Inr mn \<Rightarrow>
          (case py_int (series_max serie) of
             Inl e \<Rightarrow> Inl e
           | Inr mx \<Rightarrow> Inr \<lparr>min_val = mn, max_val = mx, bins = build_bins mn mx\<rparr>))"

section \<open>The colour map\<close>









subsection \<open>Sample tables\<close>

definition sample_regions :: "nat region list" where
  "sample_regions =
     [\<lparr>geometry = 1, REGION = Text (ustr ''San Jos'' @ [233])\<rparr>,
      \<lparr>geometry = 2, REGION = Text (ustr ''Alajuela '')\<rparr>]"

definition sample_info :: "info_row list" where
  "sample_info = [(Text (ustr ''SAN JOSE''), 120), (Text (ustr ''Lim'' @ [243, 110]), 5)]"

definition duplicate_info :: "info_row list" where
  "duplicate_info = [(Text (ustr ''SAN JOSE''), 120), (Text (ustr ''san jos'' @ [233, 32]), 7)]"

definition huge_info :: "info_row list" where
  "huge_info = [(Text (ustr ''SAN JOSE''), 2 ^ 53 + 1)]"

definition sample_sheet :: "sheet_row list" where
  "sample_sheet =
     [(Text (ustr ''SAN JOSE''), Str (ustr ''120'')), (Text (ustr ''alajuela''), Str (ustr ''abc''))]"

definition inf_sheet :: "sheet_row list" where
  "inf_sheet =
     [(Text (ustr ''SAN JOSE''), Str (ustr ''120'')), (Text (ustr ''alajuela''), Str (ustr ''inf''))]"




section \<open>Evaluating the model\<close>

lemmas norm_eval =
  ustr_def strip_def lstrip_def rstrip_def is_space_def upper_def upper_cp_def is_ascii_def
  ascii_upper_def nfkd_def decomp_cp_def ucd_latin1_def latin1_upper_def latin1_decomp_def
  latin1_decomp_table_def canonical_order_def ccc_def latin1_ccc_def ascii_ignore_def

section \<open>Properties of the rounding to floats\<close>

lemma rhe_close: "\<bar>of_int (rhe a) - a\<bar> \<le> 1 / 2"
proof -
  define f where "f = \<lfloor>a\<rfloor>"
  have b: "of_int f \<le> a" "a < of_int f + 1" unfolding f_def by linarith+
  have "rhe a = f \<and> a - of_int f \<le> 1 / 2 \<or> rhe a = f + 1 \<and> 1 / 2 \<le> a - of_int f"
    unfolding rhe_def Let_def f_def [symmetric] by auto
  then show ?thesis
    using b by (auto simp: abs_if)
qed

lemma rhe_int: "rhe (of_int n) = n"
  by (simp add: rhe_def)

lemma bitlen_eqI:
  assumes "2 ^ (n - 1) \<le> m" "m < 2 ^ n" "1 \<le> n"
  shows "bitlen m = int n"
proof (rule antisym)
  show "bitlen m \<le> int n"
    using assms by (simp add: bitlen_le_iff_power)
  show "int n \<le> bitlen m"
    using assms by (simp add: bitlen_ge_iff_power)
qed

lemma round53_eval:
  assumes "2 ^ (52 + k) \<le> a" "a < 2 ^ (53 + k)"
  shows "round53 a = rhe (a / 2 ^ k) * 2 ^ k"
proof -
  have 1: "(2::int) ^ (52 + k) \<le> \<lfloor>a\<rfloor>"
    using assms(1) by (simp add: le_floor_iff)
  have 2: "\<lfloor>a\<rfloor> < (2::int) ^ (53 + k)"
    using assms(2) by (simp add: floor_less_iff)
  have "bitlen \<lfloor>a\<rfloor> = int (53 + k)"
    using 1 2 by (intro bitlen_eqI) simp_all
  then show ?thesis
    by (simp add: round53_def Let_def)
qed

lemma fl_large:
  assumes "2 ^ (52 + e) \<le> x" "x < 2 ^ (53 + e)"
  shows "fl x = of_int (rhe (x / 2 ^ e)) * 2 ^ e"
proof -
  have x: "0 \<le> x" using assms(1) by (smt (verit) zero_le_power zero_le_numeral order_trans)
  have "round53 (x * 2 ^ emin) = rhe (x * 2 ^ emin / 2 ^ (emin + e)) * 2 ^ (emin + e)"
  proof (rule round53_eval)
    show "2 ^ (52 + (emin + e)) \<le> x * 2 ^ emin"
      using assms(1) mult_right_mono [of "2 ^ (52 + e)" x "2 ^ emin"]
      by (simp add: power_add mult.commute mult.left_commute)
    show "x * 2 ^ emin < 2 ^ (53 + (emin + e))"
      using assms(2) mult_strict_right_mono [of x "2 ^ (53 + e)" "2 ^ emin"]
      by (simp add: power_add mult.commute mult.left_commute)
  qed
  then show ?thesis
    using x by (simp add: fl_def power_add)
qed

lemma fl_small:
  assumes "2 ^ 52 \<le> x * 2 ^ j" "x * 2 ^ j < 2 ^ 53" "j \<le> emin"
  shows "fl x = of_int (rhe (x * 2 ^ j)) / 2 ^ j"
proof -
  have "0 < x * 2 ^ j" using assms(1) by (smt (verit) zero_less_power zero_less_numeral less_le_trans)
  then have x: "0 \<le> x" by (simp add: zero_less_mult_iff)
  obtain k where k: "emin = j + k" using assms(3) by (metis le_Suc_ex)
  have "round53 (x * 2 ^ emin) = rhe (x * 2 ^ emin / 2 ^ k) * 2 ^ k"
  proof (rule round53_eval)
    show "2 ^ (52 + k) \<le> x * 2 ^ emin"
      using assms(1) mult_right_mono [of "2 ^ 52" "x * 2 ^ j" "2 ^ k"]
      unfolding k by (simp add: power_add mult.assoc)
    show "x * 2 ^ emin < 2 ^ (53 + k)"
      using assms(2) mult_strict_right_mono [of "x * 2 ^ j" "2 ^ 53" "2 ^ k"]
      unfolding k by (simp add: power_add mult.assoc)
  qed
  then have "fl x = of_int (rhe (x * 2 ^ emin / 2 ^ k)) * 2 ^ k / 2 ^ emin"
    using x by (simp add: fl_def)
  then show ?thesis
    unfolding k by (simp add: power_add)
qed


lemma fl_zero: "fl 0 = 0"
  by (simp add: fl_def round53_def rhe_def)

lemma fl_neg: "0 < x \<Longrightarrow> fl (- x) = - fl x"
  by (simp add: fl_def)

lemma fl_nat_exact:
  assumes "0 < n" "n \<le> 2 ^ 53"
  shows "fl (of_int n) = of_int n"
proof (cases "n = 2 ^ 53")
  case True
  have "fl (of_int n) = of_int (rhe (of_int n / 2 ^ 1)) * 2 ^ 1"
    by (rule fl_large) (simp_all add: True)
  also have "of_int n / 2 ^ 1 = (of_int (2 ^ 52) :: rat)"
    by (simp add: True)
  finally show ?thesis
    by (simp only: rhe_int) (simp add: True)
next
  case False
  define b where "b = nat (bitlen n)"
  have bb: "2 ^ nat (bitlen n - 1) \<le> n" "n < 2 ^ nat (bitlen n)"
    using bitlen_bounds [OF assms(1)] by auto
  have b1: "1 \<le> bitlen n"
    using assms(1) by (simp add: bitlen_ge_iff_power)
  have b53: "bitlen n \<le> 53"
    using assms(2) False by (simp add: bitlen_le_iff_power)
  define j where "j = nat (53 - bitlen n)"
  have e1: "nat (bitlen n - 1) + j = 52" and e2: "nat (bitlen n) + j = 53"
    using b1 b53 by (simp_all add: j_def)
  have lo: "(2::int) ^ 52 \<le> n * 2 ^ j"
    using mult_right_mono [OF bb(1), of "2 ^ j"] by (simp flip: power_add add: e1)
  have hi: "n * 2 ^ j < (2::int) ^ 53"
    using mult_strict_right_mono [OF bb(2), of "2 ^ j"] by (simp flip: power_add add: e2)
  have "fl (of_int n) = of_int (rhe (of_int n * 2 ^ j)) / 2 ^ j"
  proof (rule fl_small)
    show "(2::rat) ^ 52 \<le> of_int n * 2 ^ j"
      using lo of_int_le_iff [of "2 ^ 52" "n * 2 ^ j", where ?'a = rat] by simp
    show "of_int n * 2 ^ j < (2::rat) ^ 53"
      using hi of_int_less_iff [of "n * 2 ^ j" "2 ^ 53", where ?'a = rat] by simp
    show "j \<le> emin" using b1 by (simp add: j_def emin_def)
  qed
  also have "of_int n * 2 ^ j = (of_int (n * 2 ^ j) :: rat)" by simp
  finally show ?thesis
    by (simp only: rhe_int) simp
qed

lemma fl_int_exact:
  assumes "\<bar>n\<bar> \<le> 2 ^ 53"
  shows "fl (of_int n) = of_int n"
proof -
  consider "n = 0" | "0 < n" | "n < 0" by linarith
  then show ?thesis
  proof cases
    case 1
    then show ?thesis by (simp add: fl_zero)
  next
    case 2
    then show ?thesis using assms fl_nat_exact [of n] by simp
  next
    case 3
    then have "fl (of_int (- n)) = of_int (- n)"
      using assms fl_nat_exact [of "- n"] by simp
    then show ?thesis
      using 3 fl_neg [of "of_int (- n)"] by simp
  qed
qed

lemma fl_error:
  assumes "1 / 2 ^ norm_min \<le> x"
  shows "\<bar>fl x - x\<bar> \<le> x / 2 ^ 53"
proof -
  define y where "y = x * 2 ^ emin"
  have x: "0 < x" using assms by (smt (verit) divide_pos_pos zero_less_power zero_less_numeral zero_less_one less_le_trans)
  have y52: "2 ^ 52 \<le> y"
  proof -
    have e: "emin = norm_min + 52" by (simp add: emin_def norm_min_def)
    have "(1 / 2 ^ norm_min) * 2 ^ emin \<le> x * 2 ^ emin"
      using assms by (intro mult_right_mono) simp_all
    moreover have "(1 / 2 ^ norm_min) * 2 ^ emin = (2::rat) ^ 52"
      unfolding e power_add by simp
    ultimately show ?thesis by (simp add: y_def)
  qed
  define m where "m = \<lfloor>y\<rfloor>"
  have m52: "2 ^ 52 \<le> m" using y52 by (simp add: m_def le_floor_iff)
  then have mpos: "0 < m" by (smt (verit) zero_less_power)
  have b: "2 ^ nat (bitlen m - 1) \<le> m" "m < 2 ^ nat (bitlen m)"
    using bitlen_bounds [OF mpos] by auto
  have b53: "53 \<le> bitlen m"
    using m52 by (simp add: bitlen_ge_iff_power)
  define k where "k = nat (bitlen m - 53)"
  have e1: "nat (bitlen m - 1) = 52 + k" and e2: "nat (bitlen m) = 53 + k"
    using b53 by (simp_all add: k_def)
  have lo: "2 ^ (52 + k) \<le> y"
    using b(1) [unfolded e1] unfolding m_def by (simp add: le_floor_iff)
  have hi: "y < 2 ^ (53 + k)"
    using b(2) [unfolded e2] unfolding m_def by (simp add: floor_less_iff)
  have r: "round53 y = rhe (y / 2 ^ k) * 2 ^ k"
    using lo hi by (rule round53_eval)
  have "\<bar>of_int (rhe (y / 2 ^ k)) - y / 2 ^ k\<bar> \<le> 1 / 2"
    by (rule rhe_close)
  then have "\<bar>of_int (rhe (y / 2 ^ k)) - y / 2 ^ k\<bar> * 2 ^ k \<le> (1 / 2) * 2 ^ k"
    by (intro mult_right_mono) simp_all
  moreover have "\<bar>of_int (rhe (y / 2 ^ k)) - y / 2 ^ k\<bar> * 2 ^ k =
      \<bar>of_int (rhe (y / 2 ^ k)) * 2 ^ k - y\<bar>"
  proof -
    have "\<bar>of_int (rhe (y / 2 ^ k)) - y / 2 ^ k\<bar> * 2 ^ k =
          \<bar>(of_int (rhe (y / 2 ^ k)) - y / 2 ^ k) * 2 ^ k\<bar>"
      by (simp add: abs_mult)
    also have "(of_int (rhe (y / 2 ^ k)) - y / 2 ^ k) * 2 ^ k =
               of_int (rhe (y / 2 ^ k)) * 2 ^ k - y"
      by (simp add: left_diff_distrib)
    finally show ?thesis .
  qed
  ultimately have "\<bar>of_int (rhe (y / 2 ^ k)) * 2 ^ k - y\<bar> \<le> (1 / 2) * 2 ^ k"
    by simp
  moreover have "(1 / 2) * 2 ^ k \<le> y / 2 ^ 53"
    using lo by (simp add: power_add)
  ultimately have "\<bar>of_int (round53 y) - y\<bar> \<le> y / 2 ^ 53"
    using r by simp
  then have "\<bar>of_int (round53 y) - y\<bar> / 2 ^ emin \<le> y / 2 ^ 53 / 2 ^ emin"
    by (intro divide_right_mono) simp_all
  moreover have "\<bar>of_int (round53 y) - y\<bar> / 2 ^ emin = \<bar>fl x - x\<bar>"
  proof -
    have "\<bar>of_int (round53 y) - y\<bar> / 2 ^ emin = \<bar>(of_int (round53 y) - y) / 2 ^ emin\<bar>"
      by simp
    also have "(of_int (round53 y) - y) / 2 ^ emin = of_int (round53 y) / 2 ^ emin - x"
      by (simp add: y_def diff_divide_distrib)
    also have "of_int (round53 y) / 2 ^ emin = fl x"
      using x by (simp add: fl_def y_def)
    finally show ?thesis .
  qed
  moreover have "y / 2 ^ 53 / 2 ^ emin = x / 2 ^ 53"
    by (simp add: y_def)
  ultimately show ?thesis by simp
qed

lemma trunc_of_int: "trunc (of_int n) = n"
  by (simp add: trunc_def)

lemma py_float_small: "\<bar>n\<bar> \<le> 2 ^ 53 \<Longrightarrow> py_float n = of_int n"
  by (simp add: py_float_def fl_int_exact)

lemma rhe_div:
  assumes "0 < b"
  shows "rhe (of_int a / of_int b) =
    (if 2 * (a mod b) < b then a div b
     else if b < 2 * (a mod b) then a div b + 1
     else if even (a div b) then a div b else a div b + 1)"
proof -
  have f: "\<lfloor>(of_int a / of_int b :: rat)\<rfloor> = a div b"
    by (rule floor_divide_of_int_eq)
  have "(of_int a :: rat) = of_int (b * (a div b) + a mod b)" by simp
  then have "(of_int a :: rat) = of_int b * of_int (a div b) + of_int (a mod b)"
    by (simp only: of_int_add of_int_mult)
  then have r: "(of_int a / of_int b :: rat) - of_int (a div b) = of_int (a mod b) / of_int b"
    using assms by (simp add: field_simps)
  have lt: "(of_int (a mod b) / of_int b :: rat) < 1 / 2 \<longleftrightarrow> 2 * (a mod b) < b"
  proof -
    have "(of_int (a mod b) / of_int b :: rat) < 1 / 2 \<longleftrightarrow>
          (of_int (2 * (a mod b)) :: rat) < of_int b"
      using assms by (simp add: field_simps)
    then show ?thesis by (simp only: of_int_less_iff)
  qed
  have gt: "1 / 2 < (of_int (a mod b) / of_int b :: rat) \<longleftrightarrow> b < 2 * (a mod b)"
  proof -
    have "1 / 2 < (of_int (a mod b) / of_int b :: rat) \<longleftrightarrow>
          (of_int b :: rat) < of_int (2 * (a mod b))"
      using assms by (simp add: field_simps)
    then show ?thesis by (simp only: of_int_less_iff)
  qed
  show ?thesis
    unfolding rhe_def Let_def f r lt gt ..
qed

lemma fl_huge: "fl (2 ^ 53 + 1) = 2 ^ 53"
proof -
  have "fl (2 ^ 53 + 1) = of_int (rhe ((2 ^ 53 + 1) / 2 ^ 1)) * 2 ^ 1"
    by (rule fl_large) simp_all
  also have "((2::rat) ^ 53 + 1) / 2 ^ 1 = of_int (2 ^ 53 + 1) / of_int 2"
    by simp
  also have "of_int (rhe (of_int (2 ^ 53 + 1) / of_int 2)) * 2 ^ 1 = (2::rat) ^ 53"
    by (simp only: rhe_div) simp
  finally show ?thesis .
qed

lemma norm_min_small: "(1::rat) / 2 ^ norm_min \<le> 1 / 1024"
proof -
  have "(2::rat) ^ 10 \<le> 2 ^ norm_min"
    by (rule power_increasing) (simp_all add: norm_min_def)
  then show ?thesis by (simp add: field_simps)
qed

section \<open>Properties of the left join\<close>

lemma to_int64_of_int: "- (2 ^ 63) \<le> n \<Longrightarrow> n < 2 ^ 63 \<Longrightarrow> to_int64 (of_int n) = n"
  by (simp add: to_int64_def trunc_of_int)

lemma carried_small: "\<bar>n\<bar> \<le> 2 ^ 53 \<Longrightarrow> carried_total fcol n = n"
proof -
  assume a: "\<bar>n\<bar> \<le> 2 ^ 53"
  have p: "py_float n = of_int n" using a by (rule py_float_small)
  have "(2::int) ^ 53 < 2 ^ 63" by simp
  with a have "- (2 ^ 63) \<le> n" "n < 2 ^ 63" by linarith+
  then have "to_int64 (of_int n) = n" by (rule to_int64_of_int)
  with p show ?thesis by (simp add: carried_total_def)
qed

lemma carried_exact: "carried_total False n = n"
  by (simp add: carried_total_def)

lemma carried_huge: "carried_total True (2 ^ 53 + 1) = 2 ^ 53"
proof -
  have "py_float (2 ^ 53 + 1) = of_int (2 ^ 53)"
    using fl_huge by (simp add: py_float_def)
  moreover have "to_int64 (of_int (2 ^ 53)) = 2 ^ 53"
    by (rule to_int64_of_int) simp_all
  ultimately show ?thesis by (simp only: carried_total_def if_True)
qed

lemmas merge_eval =
  merge_totals_def merge_left_def add_region_norm_def info_keys_def fill_total_def
  is_float_column_def matching_def with_total_def region_of_def sample_regions_def
  sample_info_def duplicate_info_def Let_def carried_small

lemma merge_totals_Nil: "merge_totals U [] info = []"
  by (simp add: merge_totals_def merge_left_def)

lemma filter_info_keys:
  "filter (\<lambda>r. fst r = k) (info_keys U info) =
   info_keys U (filter (\<lambda>t. norm_str U (fst t) = k) info)"
  by (induction info) (auto simp: info_keys_def)

lemma merge_left_Cons:
  "merge_left (l # ls) right =
     (case filter (\<lambda>r. fst r = REGION_NORM l) right of
        [] \<Rightarrow> [(l, None)]
      | ms \<Rightarrow> map (\<lambda>r. (l, Some (snd r))) ms) @ merge_left ls right"
  by (simp add: merge_left_def)

lemma matches_of_region:
  "filter (\<lambda>r. fst r = REGION_NORM (add_region_norm U g)) (info_keys U info) =
   info_keys U (matching U g info)"
  by (simp add: filter_info_keys matching_def add_region_norm_def)

lemma joined_rows_single:
  "map (fill_total f)
     (case info_keys U (matching U g info) of
        [] \<Rightarrow> [(add_region_norm U g, None)]
      | ms \<Rightarrow> map (\<lambda>r. (add_region_norm U g, Some (snd r))) ms) =
   region_rows U f g info"
  by (cases "matching U g info")
    (simp_all add: region_rows_def info_keys_def fill_total_def with_total_def
      add_region_norm_def case_prod_unfold)

lemma joined_rows:
  "map (fill_total f) (merge_left (map (add_region_norm U) G) (info_keys U info)) =
   concat (map (\<lambda>g. region_rows U f g info) G)"
proof (induction G)
  case Nil
  show ?case by (simp add: merge_left_def)
next
  case (Cons g G)
  then show ?case
    by (simp add: merge_left_Cons matches_of_region joined_rows_single)
qed

lemma float_column_single:
  "list_ex (\<lambda>p. snd p = None)
     (case info_keys U (matching U g info) of
        [] \<Rightarrow> [(add_region_norm U g, None)]
      | ms \<Rightarrow> map (\<lambda>r. (add_region_norm U g, Some (snd r))) ms) \<longleftrightarrow>
   matching U g info = []"
  by (cases "matching U g info") (simp_all add: info_keys_def list_ex_iff)

lemma float_column_iff:
  "is_float_column (merge_left (map (add_region_norm U) G) (info_keys U info)) =
   has_unmatched U G info"
proof (induction G)
  case Nil
  show ?case by (simp add: merge_left_def is_float_column_def has_unmatched_def)
next
  case (Cons g G)
  then show ?case
    by (simp add: merge_left_Cons matches_of_region float_column_single
        is_float_column_def has_unmatched_def)
qed

lemma merge_totals_rows:
  "merge_totals U G info =
   concat (map (\<lambda>g. region_rows U (has_unmatched U G info) g info) G)"
  by (simp add: merge_totals_def Let_def joined_rows float_column_iff)

lemma region_of_with_total: "region_of (with_total U g n) = g"
  by (simp add: region_of_def with_total_def)

lemma regions_rows:
  "map region_of (region_rows U f g info) = replicate (max 1 (length (matching U g info))) g"
  by (cases "matching U g info")
    (simp_all add: region_rows_def region_of_with_total o_def map_replicate_const max_def)

lemma length_region_rows:
  "length (region_rows U f g info) = max 1 (length (matching U g info))"
  using arg_cong [OF regions_rows [of U f g info], of length] by simp

lemma length_rows:
  "length (concat (map (\<lambda>g. region_rows U f g info) G)) =
   sum_list (map (\<lambda>g. max 1 (length (matching U g info))) G)"
  by (simp add: length_concat o_def length_region_rows)

lemma length_merge_totals:
  "length (merge_totals U G info) = sum_list (map (\<lambda>g. max 1 (length (matching U g info))) G)"
  by (simp only: merge_totals_rows length_rows)

lemma regions_merge_totals:
  "map region_of (merge_totals U G info) =
   concat (map (\<lambda>g. replicate (max 1 (length (matching U g info))) g) G)"
  by (simp add: merge_totals_rows map_concat o_def regions_rows)

lemma concat_replicate_one: "concat (map (\<lambda>g. replicate 1 g) G) = G"
  by (induction G) simp_all

lemma no_match_iff:
  "matching U g info = [] \<longleftrightarrow>
   norm_str U (REGION g) \<notin> (\<lambda>t. norm_str U (fst t)) ` set info"
  by (force simp: matching_def filter_empty_conv)

lemma merge_totals_split:
  "merge_totals U (before @ g # after) info =
     concat (map (\<lambda>h. region_rows U (has_unmatched U (before @ g # after) info) h info) before) @
     region_rows U (has_unmatched U (before @ g # after) info) g info @
     concat (map (\<lambda>h. region_rows U (has_unmatched U (before @ g # after) info) h info) after)"
  by (simp add: merge_totals_rows)

lemma length_before:
  "length (concat (map (\<lambda>h. region_rows U f h info) before)) =
   length (merge_totals U before info)"
  by (simp only: length_rows length_merge_totals)

lemma slice_middle: "length xs = k \<Longrightarrow> drop k (take (k + length ys) (xs @ ys @ zs)) = ys"
  by simp

lemma merge_totals_float_column:
  "map Total_col (merge_totals ucd_latin1 sample_regions huge_info) = [2 ^ 53, 0] \<and>
   map Total_col (merge_totals ucd_latin1 [hd sample_regions] huge_info) = [2 ^ 53 + 1]"
proof -
  have c: "carried_total True 9007199254740993 = 9007199254740992"
    using carried_huge by simp
  show ?thesis
    by (simp add: merge_eval norm_eval huge_info_def c carried_exact)
qed

text \<open>
  C1, as the code has it. The output lists, for each input geometry in input order, one
  record per totals row that shares its canonical key, and one record when no row shares
  it: no geometry is dropped, and a geometry is repeated when several totals rows share
  its key. When no geometry has more than one such row, the output has exactly one record
  per geometry, in input order.
\<close>

theorem merge_totals_one_record_per_match:
  "map region_of (merge_totals U G info) =
     concat (map (\<lambda>g. replicate (max 1 (length (matching U g info))) g) G) \<and>
   ((\<forall>g \<in> set G. length (matching U g info) \<le> 1) \<longrightarrow>
      map region_of (merge_totals U G info) = G \<and> length (merge_totals U G info) = length G)"
proof (intro conjI impI)
  show r: "map region_of (merge_totals U G info) =
     concat (map (\<lambda>g. replicate (max 1 (length (matching U g info))) g) G)"
    by (rule regions_merge_totals)
  assume one: "\<forall>g \<in> set G. length (matching U g info) \<le> 1"
  have "max 1 (length (matching U g info)) = 1" if "g \<in> set G" for g
  proof -
    from one that have "length (matching U g info) \<le> 1" by blast
    then show ?thesis by arith
  qed
  then have "map (\<lambda>g. replicate (max 1 (length (matching U g info))) g) G =
             map (\<lambda>g. replicate 1 g) G"
    by (intro map_cong refl) (simp only:)
  then show m: "map region_of (merge_totals U G info) = G"
    using r by (simp only: concat_replicate_one)
  show "length (merge_totals U G info) = length G"
    using arg_cong [OF m, of length] by simp
qed

theorem merge_totals_one_record_per_match_witness:
  "length (matching ucd_latin1 (hd sample_regions) sample_info) = 1 \<and>
   length (matching ucd_latin1 (last sample_regions) sample_info) = 0 \<and>
   map region_of (merge_totals ucd_latin1 sample_regions sample_info) = sample_regions \<and>
   length (merge_totals ucd_latin1 sample_regions sample_info) = 2"
proof -
  have h: "\<forall>g \<in> set sample_regions. length (matching ucd_latin1 g sample_info) \<le> 1"
    by (simp add: merge_eval norm_eval)
  have l: "length sample_regions = 2"
    by (simp add: sample_regions_def)
  have "(\<forall>g \<in> set sample_regions. length (matching ucd_latin1 g sample_info) \<le> 1) \<longrightarrow>
        map region_of (merge_totals ucd_latin1 sample_regions sample_info) = sample_regions \<and>
        length (merge_totals ucd_latin1 sample_regions sample_info) = length sample_regions"
    using merge_totals_one_record_per_match [of ucd_latin1 sample_regions sample_info]
    by (rule conjunct2)
  then have "map region_of (merge_totals ucd_latin1 sample_regions sample_info) = sample_regions \<and>
        length (merge_totals ucd_latin1 sample_regions sample_info) = length sample_regions"
    using h by (rule mp)
  then show ?thesis
    using h l by (simp add: merge_eval norm_eval)
qed

text \<open>
  C1 as the claim states it fails: two totals rows whose names canonicalize to the key of
  one geometry give two output records for that geometry.
\<close>

theorem merge_totals_length_counterexample:
  "length (merge_totals ucd_latin1 sample_regions duplicate_info) = 3 \<and>
   length (merge_totals ucd_latin1 sample_regions duplicate_info) \<noteq> length sample_regions"
  by (simp add: merge_eval norm_eval)

text \<open>
  C3, as the code has it. When one or more totals rows canonicalize to the key of a
  geometry, no row overwrites another: at the place of the geometry (after the records of
  the geometries before it) the output has one record per such row, in the order of the
  totals rows, each with the total of its row as the merged column carries it. That is
  the total of the row itself when every geometry of the frame has a totals row, or when
  the totals of these rows are at most \<open>2 ^ 53\<close> in absolute value; when some geometry
  has no totals row the column is of floats, and a larger total comes back rounded to
  the nearest float (\<open>merge_totals_float_column\<close>).
\<close>

theorem merge_totals_keeps_every_match:
  assumes "matching U g info \<noteq> []"
  shows
    "drop (length (merge_totals U before info))
       (take (length (merge_totals U before info) + length (matching U g info))
          (merge_totals U (before @ g # after) info)) =
     map (\<lambda>t. with_total U g
            (carried_total (has_unmatched U (before @ g # after) info) (snd t)))
       (matching U g info) \<and>
     (\<not> has_unmatched U (before @ g # after) info \<or>
      list_all (\<lambda>t. \<bar>snd t\<bar> \<le> 2 ^ 53) (matching U g info) \<longrightarrow>
      drop (length (merge_totals U before info))
        (take (length (merge_totals U before info) + length (matching U g info))
           (merge_totals U (before @ g # after) info)) =
      map (\<lambda>t. with_total U g (snd t)) (matching U g info))"
proof -
  let ?f = "has_unmatched U (before @ g # after) info"
  let ?k = "length (merge_totals U before info)"
  let ?rows = "map (\<lambda>t. with_total U g (carried_total ?f (snd t))) (matching U g info)"
  have r: "region_rows U ?f g info = ?rows"
    using assms by (cases "matching U g info") (simp_all add: region_rows_def)
  have l: "length ?rows = length (matching U g info)" by simp
  have s: "drop ?k (take (?k + length (matching U g info))
             (merge_totals U (before @ g # after) info)) = ?rows"
    unfolding merge_totals_split r
    using slice_middle [where ys = ?rows, OF length_before [of U ?f info before]] l by simp
  have e: "?rows = map (\<lambda>t. with_total U g (snd t)) (matching U g info)"
    if "\<not> ?f \<or> list_all (\<lambda>t. \<bar>snd t\<bar> \<le> 2 ^ 53) (matching U g info)"
    using that
  proof
    assume "\<not> ?f"
    then show ?thesis by (simp add: carried_exact)
  next
    assume "list_all (\<lambda>t. \<bar>snd t\<bar> \<le> 2 ^ 53) (matching U g info)"
    then show ?thesis by (simp add: list_all_iff carried_small)
  qed
  show ?thesis using s e by simp
qed

theorem merge_totals_keeps_every_match_witness:
  "matching ucd_latin1 (hd sample_regions) duplicate_info \<noteq> [] \<and>
   has_unmatched ucd_latin1 ([] @ hd sample_regions # tl sample_regions) duplicate_info \<and>
   map Total_col (merge_totals ucd_latin1 ([] @ hd sample_regions # tl sample_regions)
     duplicate_info) = [120, 7, 0] \<and>
   map Total_col (drop (length (merge_totals ucd_latin1 ([] :: nat region list) duplicate_info))
     (take (length (merge_totals ucd_latin1 ([] :: nat region list) duplicate_info) +
            length (matching ucd_latin1 (hd sample_regions) duplicate_info))
        (merge_totals ucd_latin1 ([] @ hd sample_regions # tl sample_regions)
           duplicate_info))) = [120, 7]"
proof -
  have h: "matching ucd_latin1 (hd sample_regions) duplicate_info \<noteq> []"
    by (simp add: merge_eval norm_eval)
  have u: "has_unmatched ucd_latin1 ([] @ hd sample_regions # tl sample_regions) duplicate_info"
    by (simp add: has_unmatched_def merge_eval norm_eval)
  have m: "map (\<lambda>t. Total_col (with_total ucd_latin1 (hd sample_regions) (snd t)))
             (matching ucd_latin1 (hd sample_regions) duplicate_info) = [120, 7]"
    by (simp add: merge_eval norm_eval)
  have s: "list_all (\<lambda>t. \<bar>snd t\<bar> \<le> 2 ^ 53)
             (matching ucd_latin1 (hd sample_regions) duplicate_info)"
    by (simp add: merge_eval norm_eval)
  have t: "map Total_col (merge_totals ucd_latin1 ([] @ hd sample_regions # tl sample_regions)
     duplicate_info) = [120, 7, 0]"
    by (simp add: merge_eval norm_eval)
  have d: "\<not> has_unmatched ucd_latin1 ([] @ hd sample_regions # tl sample_regions)
             duplicate_info \<or>
           list_all (\<lambda>t. \<bar>snd t\<bar> \<le> 2 ^ 53)
             (matching ucd_latin1 (hd sample_regions) duplicate_info)"
    by (rule disjI2) (rule s)
  have "drop (length (merge_totals ucd_latin1 ([] :: nat region list) duplicate_info))
     (take (length (merge_totals ucd_latin1 ([] :: nat region list) duplicate_info) +
            length (matching ucd_latin1 (hd sample_regions) duplicate_info))
        (merge_totals ucd_latin1 ([] @ hd sample_regions # tl sample_regions)
           duplicate_info)) =
     map (\<lambda>t. with_total ucd_latin1 (hd sample_regions) (snd t))
       (matching ucd_latin1 (hd sample_regions) duplicate_info)"
    by (rule mp [OF merge_totals_keeps_every_match [OF h, of "[]" "tl sample_regions",
            THEN conjunct2] d])
  then show ?thesis
    using h u m t by (simp add: o_def)
qed

text \<open>
  C3 as the claim states it fails: with two totals rows of one key, the geometry of that
  key does not receive the later total alone; it receives the earlier total and then the
  later one, in two records.
\<close>

theorem last_write_wins_counterexample:
  "map Total_col (merge_totals ucd_latin1 [hd sample_regions] duplicate_info) = [120, 7] \<and>
   map Total_col (merge_totals ucd_latin1 [hd sample_regions] duplicate_info) \<noteq> [7]"
  by (simp add: merge_eval norm_eval)

text \<open>
  C6. A geometry whose canonical key is the key of no totals row gives exactly one output
  record, at its place in the output (after the records of the geometries before it and
  before those of the geometries after it), and the total of that record is 0; the join
  is a total function, so an unmatched key is not a failure.
\<close>

theorem unmatched_region_total_zero:
  assumes "norm_str U (REGION g) \<notin> (\<lambda>t. norm_str U (fst t)) ` set info"
  shows
    "length (merge_totals U before info) < length (merge_totals U (before @ g # after) info) \<and>
     merge_totals U (before @ g # after) info ! length (merge_totals U before info) =
       with_total U g 0 \<and>
     Total_col (merge_totals U (before @ g # after) info ! length (merge_totals U before info)) = 0 \<and>
     map region_of (merge_totals U (before @ g # after) info) =
       map region_of (merge_totals U before info) @ [g] @
       map region_of (merge_totals U after info)"
proof -
  let ?f = "has_unmatched U (before @ g # after) info"
  let ?A = "concat (map (\<lambda>h. region_rows U ?f h info) before)"
  let ?C = "concat (map (\<lambda>h. region_rows U ?f h info) after)"
  have n: "matching U g info = []"
    using assms by (simp add: no_match_iff)
  then have r: "region_rows U ?f g info = [with_total U g 0]"
    by (simp add: region_rows_def)
  have o: "merge_totals U (before @ g # after) info = ?A @ [with_total U g 0] @ ?C"
    unfolding merge_totals_split r ..
  have k: "length ?A = length (merge_totals U before info)"
    by (rule length_before)
  have 1: "length (merge_totals U before info) < length (merge_totals U (before @ g # after) info)"
    unfolding o using k by simp
  have 2: "merge_totals U (before @ g # after) info ! length (merge_totals U before info) =
       with_total U g 0"
    unfolding o using k by (simp add: nth_append)
  have 3: "Total_col (with_total U g 0) = 0"
    by (simp add: with_total_def)
  have 4: "map region_of (merge_totals U (before @ g # after) info) =
       map region_of (merge_totals U before info) @ [g] @
       map region_of (merge_totals U after info)"
    using n by (simp add: regions_merge_totals)
  show ?thesis using 1 2 3 4 by simp
qed

theorem unmatched_region_total_zero_witness:
  "norm_str ucd_latin1 (REGION (last sample_regions)) \<notin>
     (\<lambda>t. norm_str ucd_latin1 (fst t)) ` set sample_info \<and>
   length (merge_totals ucd_latin1 [hd sample_regions] sample_info) = 1 \<and>
   Total_col (merge_totals ucd_latin1 ([hd sample_regions] @ last sample_regions # [])
     sample_info ! 1) = 0 \<and>
   map Total_col (merge_totals ucd_latin1 ([hd sample_regions] @ last sample_regions # [])
     sample_info) = [120, 0]"
proof -
  have h: "norm_str ucd_latin1 (REGION (last sample_regions)) \<notin>
     (\<lambda>t. norm_str ucd_latin1 (fst t)) ` set sample_info"
    by (simp add: merge_eval norm_eval)
  have l: "length (merge_totals ucd_latin1 [hd sample_regions] sample_info) = 1"
    by (simp add: merge_eval norm_eval)
  have t: "map Total_col (merge_totals ucd_latin1 ([hd sample_regions] @ last sample_regions # [])
     sample_info) = [120, 0]"
    by (simp add: merge_eval norm_eval)
  show ?thesis
    using h l t unmatched_region_total_zero [OF h, of "[hd sample_regions]" "[]"]
    by (simp add: with_total_def)
qed

section \<open>Properties of the canonical key\<close>

lemma filter_insert_mark:
  "\<not> is_ascii c \<Longrightarrow> filter is_ascii (insert_mark k c acc) = filter is_ascii acc"
  by (induction acc) auto

lemma filter_foldl_order:
  assumes "\<And>c. is_ascii c \<Longrightarrow> k c = 0"
  shows "filter is_ascii
           (foldl (\<lambda>acc c. if k c = 0 then c # acc else insert_mark k c acc) acc s) =
         rev (filter is_ascii s) @ filter is_ascii acc"
proof (induction s arbitrary: acc)
  case Nil
  show ?case by simp
next
  case (Cons c s)
  show ?case
  proof (cases "k c = 0")
    case True
    then show ?thesis by (simp add: Cons.IH)
  next
    case False
    then have "\<not> is_ascii c" using assms [of c] by auto
    then show ?thesis using False by (simp add: Cons.IH filter_insert_mark)
  qed
qed

lemma ascii_canonical_order:
  "ascii_ignore (canonical_order (ccc U) s) = ascii_ignore s"
proof -
  have "is_ascii c \<Longrightarrow> ccc U c = 0" for c
    by (simp add: ccc_def)
  then show ?thesis
    by (simp add: ascii_ignore_def canonical_order_def rev_filter [symmetric]
        filter_foldl_order)
qed

lemma ascii_decomp_upper:
  "ascii_ignore (concat (map (decomp_cp U) (concat (map (upper_cp U) t)))) =
   concat (map (key_of U) t)"
  by (induction t) (simp_all add: key_of_def ascii_ignore_def)

lemma norm_str_keys: "norm_str U (Text s) = concat (map (key_of U) (strip s))"
  by (simp add: nfkd_def upper_def ascii_canonical_order ascii_decomp_upper)

lemma ascii_norm_str: "list_all is_ascii (norm_str U l)"
  by (cases l) (simp_all add: ascii_ignore_def list_all_iff)

lemma key_of_ascii: "is_ascii c \<Longrightarrow> key_of U c = [ascii_upper c]"
  by (auto simp: key_of_def upper_cp_def decomp_cp_def ascii_ignore_def is_ascii_def
      ascii_upper_def)

lemma keys_ascii:
  "list_all is_ascii s \<Longrightarrow> concat (map (key_of U) s) = map ascii_upper s"
  by (induction s) (simp_all add: key_of_ascii)

lemma dropWhile_keep:
  "\<not> P c \<Longrightarrow> dropWhile P (xs @ c # ys) = dropWhile P xs @ c # ys"
  by (induction xs) auto

lemma lstrip_keep: "\<not> is_space c \<Longrightarrow> lstrip (xs @ c # ys) = lstrip xs @ c # ys"
  by (simp add: lstrip_def dropWhile_keep)

lemma rstrip_keep: "\<not> is_space c \<Longrightarrow> rstrip (xs @ c # ys) = xs @ c # rstrip ys"
  using dropWhile_keep [of is_space c "rev ys" "rev xs"] by (simp add: rstrip_def)

lemma strip_keep: "\<not> is_space c \<Longrightarrow> strip (xs @ c # ys) = lstrip xs @ c # rstrip ys"
  by (simp add: strip_def lstrip_keep rstrip_keep)

lemma strip_keep2:
  "\<not> is_space c \<Longrightarrow> \<not> is_space d \<Longrightarrow>
   strip (xs @ c # d # ys) = lstrip xs @ c # d # rstrip ys"
  using strip_keep [of c xs "d # ys"] rstrip_keep [of d "[]" ys] by simp

lemma lstrip_spaces: "list_all is_space s \<Longrightarrow> lstrip s = []"
  by (simp add: lstrip_def list_all_iff)

lemma rstrip_spaces: "list_all is_space s \<Longrightarrow> rstrip s = []"
  by (simp add: rstrip_def list_all_iff)

lemma strip_space_left: "is_space w \<Longrightarrow> strip (w # a) = strip a"
  by (simp add: strip_def lstrip_def)

lemma rstrip_space_right: "is_space w \<Longrightarrow> rstrip (a @ [w]) = rstrip a"
  by (simp add: rstrip_def)

lemma lstrip_cases:
  "lstrip s = [] \<and> list_all is_space s \<or>
   (\<exists>ws c t. s = ws @ c # t \<and> list_all is_space ws \<and> \<not> is_space c \<and> lstrip s = c # t)"
proof (induction s)
  case Nil
  show ?case by (simp add: lstrip_def)
next
  case (Cons x s)
  show ?case
  proof (cases "is_space x")
    case False
    then have "x # s = [] @ x # s \<and> list_all is_space [] \<and> \<not> is_space x \<and>
               lstrip (x # s) = x # s"
      by (simp add: lstrip_def)
    then show ?thesis by blast
  next
    case True
    from Cons.IH show ?thesis
    proof
      assume "lstrip s = [] \<and> list_all is_space s"
      then show ?thesis using True by (simp add: lstrip_def)
    next
      assume "\<exists>ws c t. s = ws @ c # t \<and> list_all is_space ws \<and> \<not> is_space c \<and>
                lstrip s = c # t"
      then obtain ws c t where
        "s = ws @ c # t" "list_all is_space ws" "\<not> is_space c" "lstrip s = c # t"
        by blast
      then have "x # s = (x # ws) @ c # t \<and> list_all is_space (x # ws) \<and> \<not> is_space c \<and>
                 lstrip (x # s) = c # t"
        using True by (simp add: lstrip_def)
      then show ?thesis by blast
    qed
  qed
qed

lemma strip_space_right: "is_space w \<Longrightarrow> strip (a @ [w]) = strip a"
proof -
  assume w: "is_space w"
  from lstrip_cases [of a] show ?thesis
  proof
    assume "lstrip a = [] \<and> list_all is_space a"
    then show ?thesis
      using w lstrip_spaces [of "a @ [w]"] by (simp add: strip_def rstrip_def)
  next
    assume "\<exists>ws c t. a = ws @ c # t \<and> list_all is_space ws \<and> \<not> is_space c \<and>
              lstrip a = c # t"
    then obtain ws c t where a: "a = ws @ c # t" and c: "\<not> is_space c"
      by blast
    have "strip (a @ [w]) = lstrip ws @ c # rstrip (t @ [w])"
      using strip_keep [OF c, of ws "t @ [w]"] a by simp
    also have "\<dots> = lstrip ws @ c # rstrip t"
      using w by (simp add: rstrip_space_right)
    also have "\<dots> = strip a"
      using strip_keep [OF c, of ws t] a by simp
    finally show ?thesis .
  qed
qed

lemma rstrip_rstrip: "rstrip (rstrip t) = rstrip t"
  by (simp add: rstrip_def)

lemma strip_strip: "strip (strip s) = strip s"
  using lstrip_cases [of s]
proof
  assume "lstrip s = [] \<and> list_all is_space s"
  then have e: "strip s = []" by (simp add: strip_def rstrip_def)
  have "strip [] = []" by (simp add: strip_def rstrip_def lstrip_def)
  with e show ?thesis by simp
next
  assume "\<exists>ws c t. s = ws @ c # t \<and> list_all is_space ws \<and> \<not> is_space c \<and>
            lstrip s = c # t"
  then obtain ws c t where s: "s = ws @ c # t" and ws: "list_all is_space ws"
    and c: "\<not> is_space c"
    by blast
  have 1: "strip s = c # rstrip t"
    using strip_keep [OF c, of ws t] lstrip_spaces [OF ws] s by simp
  have "strip (c # rstrip t) = c # rstrip t"
    using strip_keep [OF c, of "[]" "rstrip t"] by (simp add: rstrip_rstrip lstrip_def)
  then show ?thesis using 1 by simp
qed

lemma strip_map:
  assumes "\<And>c. is_space (f c) = is_space c"
  shows "strip (map f s) = map f (strip s)"
  by (simp add: strip_def lstrip_def rstrip_def dropWhile_map rev_map o_def assms)

lemma is_space_ascii_upper: "is_space (ascii_upper c) = is_space c"
  by (simp add: is_space_def ascii_upper_def) arith

lemma ascii_upper_idem: "ascii_upper (ascii_upper c) = ascii_upper c"
  unfolding ascii_upper_def by auto

lemma ascii_strip: "list_all is_ascii s \<Longrightarrow> list_all is_ascii (strip s)"
proof -
  assume a: "list_all is_ascii s"
  have "x \<in> set s" if "x \<in> set (strip s)" for x
  proof -
    from that have "x \<in> set (dropWhile is_space (rev (lstrip s)))"
      by (simp add: strip_def rstrip_def)
    then have "x \<in> set (rev (lstrip s))" by (rule set_dropWhileD)
    then have "x \<in> set (dropWhile is_space s)" by (simp add: lstrip_def)
    then show ?thesis by (rule set_dropWhileD)
  qed
  then show ?thesis using a by (auto simp: list_all_iff)
qed

lemma norm_str_ascii:
  "list_all is_ascii s \<Longrightarrow> norm_str U (Text s) = map ascii_upper (strip s)"
  using keys_ascii [OF ascii_strip] by (simp del: norm_str.simps add: norm_str_keys)

lemma norm_str_idempotent_ascii:
  assumes "list_all is_ascii s"
  shows "norm_str U (Text (norm_str U (Text s))) = norm_str U (Text s)"
proof -
  have a: "list_all is_ascii (norm_str U (Text s))"
    by (rule ascii_norm_str)
  have "norm_str U (Text (norm_str U (Text s))) =
        map ascii_upper (strip (map ascii_upper (strip s)))"
    using norm_str_ascii [OF a] norm_str_ascii [OF assms] by simp
  also have "\<dots> = map ascii_upper (map ascii_upper (strip (strip s)))"
    by (simp add: strip_map is_space_ascii_upper)
  also have "\<dots> = map ascii_upper (strip s)"
    by (simp add: strip_strip ascii_upper_idem)
  finally show ?thesis
    using norm_str_ascii [OF assms] by simp
qed

lemma norm_str_stable:
  "norm_str U (Text (norm_str U (Text (norm_str U l)))) = norm_str U (Text (norm_str U l))"
  using norm_str_idempotent_ascii [OF ascii_norm_str] .

subsection \<open>The excerpt has the three facts of the database\<close>

lemma latin1_table_marks:
  "list_all (\<lambda>e. 768 \<le> fst e \<longrightarrow> filter is_ascii (snd e) = []) latin1_decomp_table"
  by (simp add: latin1_decomp_table_def is_ascii_def)

lemma latin1_table_composed:
  "list_all (\<lambda>e. case snd e of
       b # m # ms \<Rightarrow> list_all (is_mark ucd_latin1) (m # ms) \<and> \<not> is_mark ucd_latin1 b \<longrightarrow>
         key_of ucd_latin1 (fst e) = key_of ucd_latin1 b
     | _ \<Rightarrow> True) latin1_decomp_table"
  by (simp add: key_of_def is_mark_def norm_eval)

lemma latin1_mark_range: "is_mark ucd_latin1 m \<Longrightarrow> 768 \<le> m \<and> m \<le> 879"
proof (rule ccontr)
  assume m: "is_mark ucd_latin1 m" and "\<not> (768 \<le> m \<and> m \<le> 879)"
  then have c: "m < 768 \<or> 879 < m \<or> m = 847" by arith
  have "latin1_ccc m = 0"
    unfolding latin1_ccc_def by (simp only: c if_True)
  then have "ccc ucd_latin1 m = 0"
    by (simp add: ccc_def ucd_latin1_def)
  with m show False by (simp add: is_mark_def)
qed

lemma latin1_decomp_cases:
  "latin1_decomp c = [c] \<or> (c, latin1_decomp c) \<in> set latin1_decomp_table"
proof (cases "map_of latin1_decomp_table c")
  case None
  then show ?thesis by (simp add: latin1_decomp_def)
next
  case (Some d)
  then have "(c, d) \<in> set latin1_decomp_table" by (rule map_of_SomeD)
  then show ?thesis using Some by (simp add: latin1_decomp_def)
qed

lemma latin1_decomp_mark:
  assumes "768 \<le> m"
  shows "filter is_ascii (latin1_decomp m) = []"
  using latin1_decomp_cases [of m]
proof
  assume "latin1_decomp m = [m]"
  then show ?thesis using assms by (simp add: is_ascii_def)
next
  assume "(m, latin1_decomp m) \<in> set latin1_decomp_table"
  then show ?thesis
    using latin1_table_marks assms by (auto simp: list_all_iff)
qed

lemma latin1_marks_vanish: "marks_vanish ucd_latin1"
  unfolding marks_vanish_def
proof (intro allI impI conjI)
  fix m assume "is_mark ucd_latin1 m"
  then have r: "768 \<le> m" "m \<le> 879" using latin1_mark_range by auto
  then show "\<not> is_space m" by (simp add: is_space_def)
  have u: "upper_cp ucd_latin1 m = (if m = 837 then [921] else [m])"
    using r by (simp add: upper_cp_def is_ascii_def ucd_latin1_def latin1_upper_def)
  have d: "decomp_cp ucd_latin1 x = latin1_decomp x" if "768 \<le> x" for x
    using that by (simp add: decomp_cp_def is_ascii_def ucd_latin1_def)
  show "key_of ucd_latin1 m = []"
    using u d [of m] d [of 921] r latin1_decomp_mark [of m] latin1_decomp_mark [of 921]
    by (simp add: key_of_def ascii_ignore_def)
qed

lemma latin1_composed_like_base: "composed_like_base ucd_latin1"
  unfolding composed_like_base_def
proof (intro allI impI, elim conjE)
  fix c b ms
  assume na: "\<not> is_ascii c" and dec: "decomp_cp ucd_latin1 c = b # ms" and ne: "ms \<noteq> []"
    and marks: "list_all (is_mark ucd_latin1) ms" and base: "\<not> is_mark ucd_latin1 b"
  from na dec have l: "latin1_decomp c = b # ms"
    by (simp add: decomp_cp_def ucd_latin1_def)
  obtain m ms' where ms: "ms = m # ms'" using ne by (cases ms) auto
  from latin1_decomp_cases [of c] l ms have "(c, b # m # ms') \<in> set latin1_decomp_table"
    by auto
  with latin1_table_composed
  have "list_all (is_mark ucd_latin1) (m # ms') \<and> \<not> is_mark ucd_latin1 b \<longrightarrow>
        key_of ucd_latin1 c = key_of ucd_latin1 b"
    unfolding list_all_iff by fastforce
  then show "key_of ucd_latin1 c = key_of ucd_latin1 b"
    using marks base ms by simp
qed

lemma latin1_upper_of_lower:
  assumes "\<not> is_ascii c \<or> \<not> is_ascii d"
    and "lower_cp ucd_latin1 c = lower_cp ucd_latin1 d" and "\<not> sharp_s_pair c d"
  shows "upper_cp ucd_latin1 c = upper_cp ucd_latin1 d"
  using assms
  by (auto simp: lower_cp_def upper_cp_def is_ascii_def ascii_lower_def ascii_upper_def
      latin1_lower_def latin1_upper_def sharp_s_pair_def ucd_latin1_def split: if_splits)

lemma latin1_case_pairs_agree: "case_pairs_agree ucd_latin1"
  unfolding case_pairs_agree_def
proof (intro allI impI, elim conjE)
  fix c d
  assume "\<not> is_ascii c \<or> \<not> is_ascii d"
    and "lower_cp ucd_latin1 c = lower_cp ucd_latin1 d" and "\<not> sharp_s_pair c d"
  then have "upper_cp ucd_latin1 c = upper_cp ucd_latin1 d"
    by (rule latin1_upper_of_lower)
  then show "key_of ucd_latin1 c = key_of ucd_latin1 d"
    by (simp only: key_of_def)
qed

subsection \<open>The claims about the canonical key\<close>

lemma ascii_case_pair:
  assumes "is_ascii c" and "is_ascii d" and "lower_cp U c = lower_cp U d"
  shows "key_of U c = key_of U d"
proof -
  from assms have "ascii_lower c = ascii_lower d" by (simp add: lower_cp_def)
  then have "ascii_upper c = ascii_upper d"
    by (auto simp: ascii_lower_def ascii_upper_def split: if_splits)
  then show ?thesis using assms(1,2) by (simp add: key_of_def upper_cp_def)
qed

text \<open>
  C5, as stated, evaluated where it fails. The sharp s, U+00DF, and the capital sharp s,
  U+1E9E, are one letter in two cases (the lowercase form of both is U+00DF), so the two
  one-character strings differ only in letter case. \<open>_norm\<close> gives the first the key
  \<open>"SS"\<close>, its uppercase form, and the second the empty key: U+1E9E is its own uppercase
  form, has no decomposition and is dropped with the non-ASCII code points.
\<close>

theorem norm_str_sharp_s_counterexample:
  "lower_cp ucd_latin1 223 = lower_cp ucd_latin1 7838 \<and>
   \<not> is_space 223 \<and> \<not> is_space 7838 \<and>
   norm_str ucd_latin1 (Text [223]) = ustr ''SS'' \<and>
   norm_str ucd_latin1 (Text [7838]) = []"
  by (simp add: norm_eval lower_cp_def latin1_lower_def is_space_def)

text \<open>
  C5, amended. Whenever two strings differ only in letter case other than between the
  sharp s and the capital sharp s, in surrounding whitespace or in diacritics on letters
  (the steps of \<open>variant\<close>: two characters are one letter in two cases when their
  lowercase forms are equal; diacritics are combining marks, alone after a character or
  inside a composed character), \<open>_norm\<close> gives both the same key, for every character
  database with the three stated facts. Letters with a stroke, such as U+00F8, have no
  decomposition and are not composed characters in this sense.
\<close>

theorem norm_str_variant:
  assumes "marks_vanish U" and "composed_like_base U" and "case_pairs_agree U"
    and "variant U a b"
  shows "norm_str U (Text a) = norm_str U (Text b)"
  using assms(4)
proof (induction rule: variant.induct)
  case (v_refl a)
  show ?case by simp
next
  case (v_sym a b)
  then show ?case by simp
next
  case (v_trans a b c)
  then show ?case by simp
next
  case (v_case c d xs ys)
  have "key_of U c = key_of U d"
  proof (cases "is_ascii c \<and> is_ascii d")
    case True
    then show ?thesis using v_case(3) ascii_case_pair by blast
  next
    case False
    then show ?thesis
      using v_case(3,4) assms(3) unfolding case_pairs_agree_def by blast
  qed
  then show ?case
    using v_case by (simp del: norm_str.simps add: norm_str_keys strip_keep)
next
  case (v_space_left w a)
  then show ?case by (simp del: norm_str.simps add: norm_str_keys strip_space_left)
next
  case (v_space_right w a)
  then show ?case by (simp del: norm_str.simps add: norm_str_keys strip_space_right)
next
  case (v_mark p m xs ys)
  then have m: "\<not> is_space m" "key_of U m = []"
    using assms(1) by (auto simp: marks_vanish_def)
  show ?case
    using v_mark(1) m
    by (simp del: norm_str.simps add: norm_str_keys strip_keep rstrip_keep [of _ "[]", simplified])
next
  case (v_composed c b ms xs ys)
  then have "key_of U c = key_of U b"
    using assms(2) unfolding composed_like_base_def by blast
  then show ?case
    using v_composed by (simp del: norm_str.simps add: norm_str_keys strip_keep)
qed

theorem norm_str_variant_witness:
  "norm_str ucd_latin1 (Text [233, 32]) = norm_str ucd_latin1 (Text [69]) \<and>
   norm_str ucd_latin1 (Text [69]) = [69]"
proof -
  have 1: "variant ucd_latin1 ([233] @ [32]) [233]"
    by (rule v_space_right) (simp add: is_space_def)
  have "variant ucd_latin1 ([] @ 233 # []) ([] @ 101 # [])"
    by (rule v_composed [where ms = "[769]"])
      (simp_all add: is_space_def is_ascii_def is_mark_def norm_eval)
  then have 2: "variant ucd_latin1 [233] [101]" by simp
  have "variant ucd_latin1 ([] @ 101 # []) ([] @ 69 # [])"
    by (rule v_case)
      (simp_all add: is_space_def is_ascii_def lower_cp_def ascii_lower_def sharp_s_pair_def)
  then have 3: "variant ucd_latin1 [101] [69]" by simp
  have v: "variant ucd_latin1 [233, 32] [69]"
    using v_trans [OF v_trans [OF 1 2] 3] by simp
  have e: "norm_str ucd_latin1 (Text [69]) = [69]"
    by (simp add: norm_eval)
  show ?thesis
    using norm_str_variant [OF latin1_marks_vanish latin1_composed_like_base
        latin1_case_pairs_agree v] e by simp
qed

text \<open>
  C10, evaluated where it fails. The docstring of \<open>_norm\<close> promises an uppercase result
  without extra spaces, and the claim concludes that a second application changes
  nothing. The code strips and uppercases before it decomposes and drops the non-ASCII
  code points: for the input U+00D7 U+0020 U+0078 (a multiplication sign, a space, x) the
  result is \<open>" X"\<close>, with a leading space that a second application removes; for the
  input U+00AA (feminine ordinal indicator) the result is the lowercase \<open>"a"\<close>, which a
  second application turns into \<open>"A"\<close>. (On ASCII-only input the function is idempotent,
  \<open>norm_str_idempotent_ascii\<close>, and a third application never changes the second result,
  \<open>norm_str_stable\<close>.)
\<close>

theorem norm_str_twice_differs:
  "norm_str ucd_latin1 (Text [215, 32, 120]) = ustr '' X'' \<and>
   norm_str ucd_latin1 (Text (norm_str ucd_latin1 (Text [215, 32, 120]))) = ustr ''X'' \<and>
   norm_str ucd_latin1 (Text [170]) = ustr ''a'' \<and>
   norm_str ucd_latin1 (Text (norm_str ucd_latin1 (Text [170]))) = ustr ''A''"
  by (simp add: norm_eval)

section \<open>The coercion of the totals\<close>

lemmas coerce_eval =
  coerce_totals_def astype_int_def sample_parse_def parse_number_def trim_blanks_def
  is_blank_def is_digit_def digits_value_def signed_def ascii_lower_def in_int64_def
  in_uint64_def reconcile_def sample_sheet_def inf_sheet_def Let_def

lemma to_int64_py_float: "\<bar>n\<bar> \<le> 2 ^ 53 \<Longrightarrow> to_int64 (py_float n) = n"
  using carried_small [of n True] by (simp add: carried_total_def)

lemma to_int64_zero: "to_int64 0 = 0"
  by (simp add: to_int64_def trunc_def)

lemma finite_fillna0: "is_finite (fillna0 v) \<longleftrightarrow> v \<noteq> PInf \<and> v \<noteq> NInf"
  by (cases v) simp_all

lemma int_column_length: "int_column R vs = Some ns \<Longrightarrow> length ns = length vs"
proof (induction vs arbitrary: ns)
  case Nil
  then show ?case by simp
next
  case (Cons v vs)
  then show ?case by (cases v) (auto split: if_splits)
qed

lemma int_column_ints: "list_all R ns \<Longrightarrow> int_column R (map IntV ns) = Some ns"
  by (induction ns) simp_all

lemma coerce_totals_finite:
  assumes "list_all (\<lambda>c. as_float (to_numeric P c) \<noteq> PInf \<and>
                          as_float (to_numeric P c) \<noteq> NInf) col"
  shows "\<exists>ns. coerce_totals P col = Inr ns \<and> length ns = length col"
proof (cases "int_column in_int64 (map (to_numeric P) col)")
  case (Some ns)
  then show ?thesis
    using int_column_length [OF Some] by (simp add: coerce_totals_def)
next
  case None
  show ?thesis
  proof (cases "int_column in_uint64 (map (to_numeric P) col)")
    case (Some ns)
    then show ?thesis
      using None int_column_length [OF Some] by (simp add: coerce_totals_def)
  next
    case none: None
    have "list_all is_finite (map fillna0 (map as_float (map (to_numeric P) col)))"
      using assms by (simp add: list_all_iff finite_fillna0)
    then show ?thesis
      using None none by (simp add: coerce_totals_def astype_int_def)
  qed
qed

lemma coerce_not_a_number:
  "to_numeric P c = FloatV NaN \<Longrightarrow> to_int (fillna0 (as_float (to_numeric P c))) = 0"
  by (simp add: to_int64_zero)

lemma coerce_integers:
  assumes "list_all in_int64 ns"
  shows "coerce_totals P (map (\<lambda>n. Num (of_int n)) ns) = Inr ns"
proof -
  have m: "map (to_numeric P) (map (\<lambda>n. Num (of_int n)) ns) = map IntV ns"
    by simp
  show ?thesis
    unfolding coerce_totals_def Let_def m int_column_ints [OF assms] by simp
qed

lemma sample_parse_texts:
  "sample_parse (ustr ''120'') = IntV 120"
  "sample_parse (ustr '' -12 '') = IntV (- 12)"
  "sample_parse (ustr ''abc'') = FloatV NaN"
  "sample_parse (ustr ''inf'') = FloatV PInf"
  "sample_parse (ustr ''-Infinity'') = FloatV NInf"
  by (simp_all add: coerce_eval ustr_def)

lemma decimal_text_truncated:
  "coerce_totals sample_parse [Str (ustr ''1.9'')] = Inr [1]"
proof -
  define v :: rat where "v = 19 / 10"
  have v: "19 / 10 \<le> v" "v \<le> 19 / 10" by (simp_all add: v_def)
  have "1 / 2 ^ norm_min \<le> v" using norm_min_small v by linarith
  then have "\<bar>fl v - v\<bar> \<le> v / 2 ^ 53" by (rule fl_error)
  then have "\<bar>fl v - v\<bar> \<le> v / 9007199254740992" by simp
  then have b: "1 \<le> fl v" "fl v < 2" using v by linarith+
  have "(2::rat) ^ 1 \<le> 2 ^ emax"
    by (rule power_increasing) (simp_all add: emax_def)
  then have l: "\<bar>fl v\<bar> < 2 ^ emax" using b by simp
  have f: "\<lfloor>fl v\<rfloor> = 1" using b by (simp add: floor_unique)
  have t: "to_int64 (fl v) = 1"
    using b f by (simp add: to_int64_def trunc_def)
  have d: "of_decimal 19 (- 1) = Fin (fl v)"
    using l by (simp add: of_decimal_def v_def)
  have "sample_parse (ustr ''1.9'') = FloatV (of_decimal 19 (- 1))"
    by (simp add: coerce_eval ustr_def)
  then show ?thesis
    using d t by (simp add: coerce_totals_def astype_int_def)
qed

lemma reconcile_sample_sheet:
  "map_sum id (map Total_col) (reconcile ucd_latin1 sample_parse sample_regions sample_sheet) =
   Inr [120, 0]"
proof -
  have "coerce_totals sample_parse (map snd sample_sheet) = Inr [120, 0]"
    by (simp add: coerce_totals_def astype_int_def sample_sheet_def sample_parse_texts
        in_int64_def in_uint64_def to_int64_py_float to_int64_zero)
  then show ?thesis
    by (simp add: reconcile_def sample_sheet_def merge_eval norm_eval)
qed

text \<open>
  C7, evaluated where it fails. \<open>errors="coerce"\<close> and \<open>fillna(0)\<close> turn text that is no
  number into 0 (\<open>coerce_not_a_number\<close>), a column without infinite values is converted
  without error (\<open>coerce_totals_finite\<close>), and a column of integers, negative ones
  included, is unchanged (\<open>coerce_integers\<close>). Text that pandas reads as an infinity,
  such as \<open>inf\<close>, is neither replaced by \<open>fillna(0)\<close> nor convertible: \<open>astype(int)\<close>
  raises, and the whole reconciliation ends with that error.
\<close>

theorem coerce_totals_inf_raises:
  "coerce_totals sample_parse (map snd inf_sheet) = Inl IntCastingNaNError \<and>
   reconcile ucd_latin1 sample_parse sample_regions inf_sheet = Inl IntCastingNaNError"
  by (simp add: coerce_totals_def astype_int_def reconcile_def inf_sheet_def
      sample_parse_texts in_int64_def in_uint64_def)

section \<open>The scale\<close>

text \<open>
  C2, evaluated where it fails. When all values are equal, line 92 builds the boundaries
  with \<open>range(min_val, min_val + 9)\<close>: nine consecutive integers, from \<open>min_val\<close> to
  \<open>min_val + 8\<close>, where the claim, the comment of line 85 and the other branch have eight.
\<close>

theorem degenerate_bins_nine:
  "length (build_bins m m) = 9 \<and> last (build_bins m m) = m + 8 \<and>
   build_scale [5, 5, 5] =
     Inr \<lparr>min_val = 5, max_val = 5, bins = [5, 6, 7, 8, 9, 10, 11, 12, 13]\<rparr>"
proof (intro conjI)
  show "length (build_bins m m) = 9"
    by (simp add: build_bins_def)
  have b: "build_bins m m = [m..m + 8]"
    by (simp add: build_bins_def add.commute)
  have "last [m..m + 8] = m + 8"
    by (subst upto_rec2) simp_all
  then show "last (build_bins m m) = m + 8"
    by (simp only: b)
  show "build_scale [5, 5, 5] =
     Inr \<lparr>min_val = 5, max_val = 5, bins = [5, 6, 7, 8, 9, 10, 11, 12, 13]\<rparr>"
    by (simp add: build_scale_def build_bins_def)
qed

text \<open>
  C8. Building the scale of an empty series ends with the error \<open>ValueError\<close> (the
  minimum of an empty series is NaN, which \<open>int\<close> refuses), and the empty series is the
  only series for which building the scale ends with an error.
\<close>

theorem build_scale_error_iff_empty:
  "build_scale [] = Inl ValueError \<and> ((\<exists>e. build_scale serie = Inl e) \<longleftrightarrow> serie = [])"
  by (cases serie) (simp_all add: build_scale_def)

subsection \<open>The boundaries between the minimum and the maximum\<close>

lemma seven_dvd: 
  assumes "1 \<le> i" "i \<le> 6" "\<not> 7 dvd (d::int)"
  shows "\<not> 7 dvd int i * d"
proof -
  from assms(1,2) have "i = 1 \<or> i = 2 \<or> i = 3 \<or> i = 4 \<or> i = 5 \<or> i = 6" by arith
  then show ?thesis
    using assms(3) by (elim disjE) (simp_all, presburger+)
qed

lemma bin_multiple:
  assumes "0 < d" "d < 2 ^ 49" "i \<le> 6" "7 dvd d"
  shows "trunc (fmul (py_float (int i)) (true_div d 7)) = (int i * d) div 7"
proof -
  from assms(4) obtain q where q: "d = 7 * q" by (auto simp: dvd_def)
  have qb: "0 < q" "q < 2 ^ 49" using assms(1,2) q by auto
  have s: "true_div d 7 = of_int q"
    using qb fl_int_exact [of q] by (simp add: true_div_def q)
  have ib: "\<bar>int i\<bar> \<le> 2 ^ 53" using assms(3) by simp
  have p1: "int i * q \<le> 6 * q" using assms(3) qb by (intro mult_right_mono) simp_all
  have p0: "0 \<le> int i * q" using qb by simp
  have p2: "6 * q \<le> 2 ^ 53" using qb by simp
  have pb: "\<bar>int i * q\<bar> \<le> 2 ^ 53" using p0 p1 p2 by linarith
  have "fmul (py_float (int i)) (true_div d 7) = fl (of_int (int i * q))"
    by (simp add: fmul_def s py_float_small [OF ib])
  also have "\<dots> = of_int (int i * q)" using pb by (rule fl_int_exact)
  finally show ?thesis
    by (simp only: trunc_of_int) (simp add: q)
qed


lemma bin_inexact:
  assumes "0 < d" "d < 2 ^ 49" "1 \<le> i" "i \<le> 6" "\<not> 7 dvd d"
  shows "trunc (fmul (py_float (int i)) (true_div d 7)) = (int i * d) div 7"
proof -
  define x :: rat where "x = of_int d / 7"
  define s where "s = fl x"
  define X :: rat where "X = of_int (int i) * x"
  define p where "p = of_int (int i) * s"
  define t where "t = fl p"
  define N where "N = (int i * d) div 7"
  define r where "r = (int i * d) mod 7"
  have ib: "\<bar>int i\<bar> \<le> 2 ^ 53" using assms(4) by simp
  have i1: "(1::rat) \<le> of_int (int i)" "of_int (int i) \<le> (6::rat)"
    using assms(3,4) by simp_all
  have d1: "(1::rat) \<le> of_int d" using assms(1) by (simp add: of_int_1_le_iff)
  have d2: "of_int d < (2::rat) ^ 49"
    using assms(2) of_int_less_iff [of d "2 ^ 49", where ?'a = rat] by simp
  have x1: "1 / 7 \<le> x" using d1 by (simp add: x_def)
  have x2: "x < 2 ^ 49 / 7" using d2 by (simp add: x_def)
  have "1 / 2 ^ norm_min \<le> x" using norm_min_small x1 by linarith
  then have es: "\<bar>s - x\<bar> \<le> x / 2 ^ 53" unfolding s_def by (rule fl_error)
  have X1: "x \<le> X"
    using i1(1) x1 mult_right_mono [of 1 "of_int (int i)" x] by (simp add: X_def)
  have X2: "X \<le> 6 * x"
    using i1(2) x1 mult_right_mono [of "of_int (int i)" 6 x] by (simp add: X_def)
  have "\<bar>p - X\<bar> = of_int (int i) * \<bar>s - x\<bar>"
    using i1(1) by (simp add: p_def X_def right_diff_distrib [symmetric] abs_mult)
  also have "\<dots> \<le> of_int (int i) * (x / 2 ^ 53)"
    using es i1(1) by (intro mult_left_mono) simp_all
  finally have "\<bar>p - X\<bar> \<le> X / 2 ^ 53" by (simp add: X_def)
  then have ep: "\<bar>p - X\<bar> \<le> X / 9007199254740992" by simp
  have "1 / 16 \<le> p" using ep X1 x1 by linarith
  then have "1 / 2 ^ norm_min \<le> p" using norm_min_small by linarith
  then have "\<bar>t - p\<bar> \<le> p / 2 ^ 53" unfolding t_def by (rule fl_error)
  then have et: "\<bar>t - p\<bar> \<le> p / 9007199254740992" by simp
  have x3: "x < 562949953421312 / 7" using x2 by simp
  have close: "\<bar>t - X\<bar> < 1 / 7"
    using et ep X2 x3 by linarith
  have r0: "r \<noteq> 0"
    using seven_dvd [OF assms(3,4,5)] by (simp add: r_def dvd_eq_mod_eq_0)
  have rb: "1 \<le> r" "r \<le> 6"
    using r0 pos_mod_bound [of 7 "int i * d"] pos_mod_sign [of 7 "int i * d"]
    by (simp_all add: r_def)
  have "int i * d = 7 * N + r"
    by (simp add: N_def r_def)
  then have "of_int (int i * d) = (of_int (7 * N + r) :: rat)" by simp
  then have Xe: "X = of_int N + of_int r / 7"
    by (simp add: X_def x_def)
  have rr: "(1::rat) \<le> of_int r" "of_int r \<le> (6::rat)"
    using rb by simp_all
  have Nt: "of_int N < t" "t < of_int N + 1"
    using close Xe rr by linarith+
  have N0: "0 \<le> N" using assms(1) by (simp add: N_def pos_imp_zdiv_nonneg_iff)
  then have "(0::rat) \<le> of_int N" by simp
  then have "0 \<le> t" using Nt(1) by linarith
  moreover have "\<lfloor>t\<rfloor> = N"
    using Nt by (intro floor_unique) simp_all
  ultimately have "trunc t = N" by (simp add: trunc_def)
  moreover have "fmul (py_float (int i)) (true_div d 7) = t"
    by (simp add: fmul_def true_div_def py_float_small [OF ib] t_def p_def s_def x_def)
  ultimately show ?thesis by (simp add: N_def)
qed


lemma fmul_zero: "fmul (py_float 0) s = 0"
  by (simp add: fmul_def py_float_def fl_zero)

lemma bin_exact:
  assumes "0 < d" "d < 2 ^ 49" "i \<le> 6"
  shows "trunc (fmul (py_float (int i)) (true_div d 7)) = (int i * d) div 7"
proof (cases "i = 0")
  case True
  then show ?thesis by (simp add: fmul_zero trunc_def)
next
  case False
  then have i: "1 \<le> i" by simp
  show ?thesis
  proof (cases "7 dvd d")
    case True
    then show ?thesis using assms by (rule bin_multiple [rotated -1])
  next
    case False
    then show ?thesis using assms i by (intro bin_inexact) simp_all
  qed
qed

lemma build_bins_general:
  assumes "mn < mx"
  shows "build_bins mn mx =
    (map (\<lambda>i. mn + trunc (fmul (py_float (int i)) (true_div (mx - mn) 7)))
       [0..<8])[7 := mx]"
  using assms by (simp add: build_bins_def Let_def)

lemma build_bins_formula:
  assumes "mn < mx" "mx - mn < 2 ^ 49"
  shows "build_bins mn mx =
    map (\<lambda>i. mn + (int i * (mx - mn)) div 7) [0..<8]"
proof (rule nth_equalityI)
  show "length (build_bins mn mx) =
    length (map (\<lambda>i. mn + (int i * (mx - mn)) div 7) [0..<8])"
    using assms(1) by (simp add: build_bins_general)
next
  fix i assume "i < length (build_bins mn mx)"
  then have i: "i < 8" using assms(1) by (simp add: build_bins_general)
  have d: "0 < mx - mn" using assms(1) by simp
  show "build_bins mn mx ! i =
    map (\<lambda>i. mn + (int i * (mx - mn)) div 7) [0..<8] ! i"
  proof (cases "i = 7")
    case True
    then show ?thesis using assms(1) by (simp add: build_bins_general)
  next
    case False
    then have "i \<le> 6" using i by simp
    then show ?thesis
      using i False bin_exact [OF d assms(2), of i]
      by (simp add: build_bins_general [OF assms(1)])
  qed
qed

lemma trunc_mono: "x \<le> y \<Longrightarrow> trunc x \<le> trunc y"
proof -
  assume le: "x \<le> y"
  consider "0 \<le> x" | "x < 0" "0 \<le> y" | "x < 0" "y < 0" by linarith
  then show ?thesis
  proof cases
    case 1
    then show ?thesis using le by (simp add: trunc_def floor_mono)
  next
    case 2
    then have b: "\<lceil>x\<rceil> \<le> 0" "0 \<le> \<lfloor>y\<rfloor>" by (simp_all add: ceiling_le_zero)
    have "trunc x = \<lceil>x\<rceil>" "trunc y = \<lfloor>y\<rfloor>" using 2 by (simp_all add: trunc_def)
    then show ?thesis using b by linarith
  next
    case 3
    then show ?thesis using le by (simp add: trunc_def ceiling_mono)
  qed
qed

lemma true_div_bounds:
  assumes "0 < (d::int)"
  shows "of_int d / 7 - of_int d / 7 / 9007199254740992 \<le> true_div d 7"
    and "true_div d 7 \<le> of_int d / 7 + of_int d / 7 / 9007199254740992"
proof -
  define x :: rat where "x = of_int d / 7"
  have d1: "(1::rat) \<le> of_int d" using assms by (simp add: of_int_1_le_iff)
  have x1: "1 / 7 \<le> x" using d1 by (simp add: x_def)
  have "1 / 2 ^ norm_min \<le> x" using norm_min_small x1 by linarith
  then have "\<bar>fl x - x\<bar> \<le> x / 2 ^ 53" by (rule fl_error)
  then have e: "\<bar>fl x - x\<bar> \<le> x / 9007199254740992" by simp
  have t: "true_div d 7 = fl x" by (simp add: true_div_def x_def)
  have lo: "x - x / 9007199254740992 \<le> fl x" using e by linarith
  have hi: "fl x \<le> x + x / 9007199254740992" using e by linarith
  show "of_int d / 7 - of_int d / 7 / 9007199254740992 \<le> true_div d 7"
    using lo unfolding t x_def .
  show "true_div d 7 \<le> of_int d / 7 + of_int d / 7 / 9007199254740992"
    using hi unfolding t x_def .
qed

lemma fmul_bounds:
  assumes "0 < (d::int)" "1 \<le> i" "i \<le> 6"
  shows "of_int (int i) * true_div d 7 - of_int (int i) * true_div d 7 / 9007199254740992
           \<le> fmul (py_float (int i)) (true_div d 7)"
    and "fmul (py_float (int i)) (true_div d 7)
           \<le> of_int (int i) * true_div d 7 + of_int (int i) * true_div d 7 / 9007199254740992"
proof -
  define s where "s = true_div d 7"
  define p where "p = of_int (int i) * s"
  have d1: "(1::rat) \<le> of_int d" using assms(1) by (simp add: of_int_1_le_iff)
  have s1: "1 / 8 \<le> s"
    using true_div_bounds(1) [OF assms(1)] d1 unfolding s_def by linarith
  have i1: "(1::rat) \<le> of_int (int i)" using assms(2) by simp
  have "1 * s \<le> of_int (int i) * s"
    using i1 s1 by (intro mult_right_mono) linarith+
  then have m: "s \<le> p" by (simp only: p_def mult_1)
  have p1: "1 / 8 \<le> p" using m s1 by linarith
  have "1 / 2 ^ norm_min \<le> p" using norm_min_small p1 by linarith
  then have "\<bar>fl p - p\<bar> \<le> p / 2 ^ 53" by (rule fl_error)
  then have e: "\<bar>fl p - p\<bar> \<le> p / 9007199254740992" by simp
  have ib: "\<bar>int i\<bar> \<le> 2 ^ 53" using assms(3) by simp
  have f: "fmul (py_float (int i)) (true_div d 7) = fl p"
    by (simp add: fmul_def py_float_small [OF ib] p_def s_def)
  have lo: "p - p / 9007199254740992 \<le> fl p" using e by linarith
  have hi: "fl p \<le> p + p / 9007199254740992" using e by linarith
  show "of_int (int i) * true_div d 7 - of_int (int i) * true_div d 7 / 9007199254740992
           \<le> fmul (py_float (int i)) (true_div d 7)"
    using lo unfolding f p_def s_def .
  show "fmul (py_float (int i)) (true_div d 7)
           \<le> of_int (int i) * true_div d 7 + of_int (int i) * true_div d 7 / 9007199254740992"
    using hi unfolding f p_def s_def .
qed

lemma step_multiples:
  assumes "0 \<le> (s::rat)" "i \<le> j"
  shows "of_int (int i) * s + of_int (int j - int i) * s = of_int (int j) * s"
    and "of_int (int i) * s \<le> of_int (int j) * s"
proof -
  show "of_int (int i) * s + of_int (int j - int i) * s = of_int (int j) * s"
    by (simp add: algebra_simps)
  have "(of_int (int i) :: rat) \<le> of_int (int j)" using assms(2) by simp
  then show "of_int (int i) * s \<le> of_int (int j) * s"
    using assms(1) by (rule mult_right_mono)
qed

lemma bins_step_le:
  assumes "0 < (d::int)" "i < j" "j \<le> 6"
  shows "trunc (fmul (py_float (int i)) (true_div d 7))
           \<le> trunc (fmul (py_float (int j)) (true_div d 7))"
proof -
  define s where "s = true_div d 7"
  define p where "p = of_int (int i) * s"
  define q where "q = of_int (int j) * s"
  have d1: "(1::rat) \<le> of_int d" using assms(1) by (simp add: of_int_1_le_iff)
  have s0: "0 \<le> s"
    using true_div_bounds(1) [OF assms(1)] d1 unfolding s_def by linarith
  have j1: "1 \<le> j" using assms(2) by simp
  have q6: "q \<le> 6 * s"
  proof -
    have "(of_int (int j) :: rat) \<le> 6" using assms(3) by simp
    then show ?thesis unfolding q_def using s0 by (rule mult_right_mono)
  qed
  have pq: "p + s \<le> q"
  proof -
    have "(of_int (int i) :: rat) + 1 \<le> of_int (int j)"
      using assms(2) of_int_le_iff [of "int i + 1" "int j", where ?'a = rat] by simp
    then have "(of_int (int i) + 1) * s \<le> of_int (int j) * s"
      using s0 by (rule mult_right_mono)
    then show ?thesis by (simp add: p_def q_def algebra_simps)
  qed
  have p0: "0 \<le> p" using s0 by (simp add: p_def)
  have lo: "q - q / 9007199254740992 \<le> fmul (py_float (int j)) (true_div d 7)"
    using fmul_bounds(1) [OF assms(1) j1 assms(3)] by (simp only: q_def s_def)
  have "fmul (py_float (int i)) (true_div d 7) \<le> fmul (py_float (int j)) (true_div d 7)"
  proof (cases "i = 0")
    case True
    have "fmul (py_float (int i)) (true_div d 7) = 0"
      using True by (simp add: fmul_zero)
    then show ?thesis using lo p0 pq s0 by linarith
  next
    case False
    then have i1: "1 \<le> i" by simp
    have i6: "i \<le> 6" using assms(2,3) by simp
    have hi: "fmul (py_float (int i)) (true_div d 7) \<le> p + p / 9007199254740992"
      using fmul_bounds(2) [OF assms(1) i1 i6] by (simp only: p_def s_def)
    have p6: "p \<le> 6 * s"
    proof -
      have "(of_int (int i) :: rat) \<le> 6" using i6 by simp
      then show ?thesis unfolding p_def using s0 by (rule mult_right_mono)
    qed
    show ?thesis using hi lo pq p6 q6 s0 by linarith
  qed
  then show ?thesis by (rule trunc_mono)
qed

lemma bins_last_le:
  assumes "0 < (d::int)" "i \<le> 6"
  shows "trunc (fmul (py_float (int i)) (true_div d 7)) \<le> d"
proof -
  define s where "s = true_div d 7"
  define p where "p = of_int (int i) * s"
  define x :: rat where "x = of_int d / 7"
  have d1: "(1::rat) \<le> of_int d" using assms(1) by (simp add: of_int_1_le_iff)
  have x0: "0 \<le> x" using d1 by (simp add: x_def)
  have s0: "0 \<le> s"
    using true_div_bounds(1) [OF assms(1)] d1 unfolding s_def by linarith
  have sx: "s \<le> x + x / 9007199254740992"
    using true_div_bounds(2) [OF assms(1)] by (simp only: s_def x_def)
  have p6: "p \<le> 6 * s"
  proof -
    have "(of_int (int i) :: rat) \<le> 6" using assms(2) by simp
    then show ?thesis unfolding p_def using s0 by (rule mult_right_mono)
  qed
  have p0: "0 \<le> p" using s0 by (simp add: p_def)
  have "fmul (py_float (int i)) (true_div d 7) \<le> of_int d"
  proof (cases "i = 0")
    case True
    have "fmul (py_float (int i)) (true_div d 7) = 0"
      using True by (simp add: fmul_zero)
    then show ?thesis using d1 by linarith
  next
    case False
    then have i1: "1 \<le> i" by simp
    have hi: "fmul (py_float (int i)) (true_div d 7) \<le> p + p / 9007199254740992"
      using fmul_bounds(2) [OF assms(1) i1 assms(2)] by (simp only: p_def s_def)
    have dx: "of_int d = 7 * x" by (simp add: x_def)
    show ?thesis unfolding dx using hi p6 sx x0 p0 s0 by linarith
  qed
  then have "trunc (fmul (py_float (int i)) (true_div d 7)) \<le> trunc (of_int d)"
    by (rule trunc_mono)
  then show ?thesis by (simp only: trunc_of_int)
qed

lemma build_bins_nth:
  assumes "mn < mx" "j < 8"
  shows "build_bins mn mx ! j =
    (if j = 7 then mx else mn + trunc (fmul (py_float (int j)) (true_div (mx - mn) 7)))"
  using assms(2) by (simp add: build_bins_general [OF assms(1)])

lemma build_bins_sorted:
  assumes "mn < mx"
  shows "sorted (build_bins mn mx)"
  unfolding sorted_iff_nth_mono
proof (intro allI impI)
  fix i j :: nat
  assume ij: "i \<le> j" and "j < length (build_bins mn mx)"
  then have j: "j < 8" by (simp add: build_bins_general [OF assms])
  have i: "i < 8" using ij j by simp
  have d: "0 < mx - mn" using assms by simp
  show "build_bins mn mx ! i \<le> build_bins mn mx ! j"
  proof (cases "i = j")
    case True
    then show ?thesis by simp
  next
    case ne: False
    then have lt: "i < j" using ij by simp
    show ?thesis
    proof (cases "j = 7")
      case True
      have "i \<le> 6" using lt True by simp
      then have "trunc (fmul (py_float (int i)) (true_div (mx - mn) 7)) \<le> mx - mn"
        by (rule bins_last_le [OF d])
      moreover have "build_bins mn mx ! 7 = mx"
        by (simp add: build_bins_general [OF assms])
      ultimately show ?thesis
        using True lt by (simp add: build_bins_nth [OF assms i])
    next
      case False
      then have j6: "j \<le> 6" using j by simp
      have "trunc (fmul (py_float (int i)) (true_div (mx - mn) 7))
              \<le> trunc (fmul (py_float (int j)) (true_div (mx - mn) 7))"
        using d lt j6 by (rule bins_step_le)
      then show ?thesis
        using False lt j6 by (simp add: build_bins_nth [OF assms i] build_bins_nth [OF assms j])
    qed
  qed
qed

text \<open>
  C4, as the code has it. When \<open>max_val > min_val\<close> the scale has 8 boundaries, the first
  is \<open>min_val\<close>, the last is \<open>max_val\<close>, and the boundaries are non-decreasing. The step
  is a float and the products \<open>i * step\<close> are rounded, so the formula
  \<open>min_val + floor(i * (max_val - min_val) / 7)\<close> for \<open>i\<close> from 0 to 6 is proved for
  \<open>max_val - min_val < 2 ^ 49\<close>.
\<close>

theorem build_bins_linear:
  assumes "mn < mx"
  shows "length (build_bins mn mx) = 8 \<and>
    build_bins mn mx ! 0 = mn \<and>
    build_bins mn mx ! 7 = mx \<and>
    sorted (build_bins mn mx) \<and>
    (mx - mn < 2 ^ 49 \<longrightarrow>
      (\<forall>i<7. build_bins mn mx ! i = mn + (int i * (mx - mn)) div 7))"
proof (intro conjI impI allI)
  show "length (build_bins mn mx) = 8"
    by (simp add: build_bins_general [OF assms])
  show "build_bins mn mx ! 0 = mn"
    by (simp add: build_bins_general [OF assms] fmul_zero trunc_def)
  show "build_bins mn mx ! 7 = mx"
    by (simp add: build_bins_general [OF assms])
  show "sorted (build_bins mn mx)"
    using assms by (rule build_bins_sorted)
next
  fix i :: nat
  assume b: "mx - mn < 2 ^ 49" and i: "i < 7"
  show "build_bins mn mx ! i = mn + (int i * (mx - mn)) div 7"
    using i by (simp add: build_bins_formula [OF assms b])
qed

theorem build_bins_linear_witness:
  "length (build_bins 10 80) = 8 \<and> build_bins 10 80 ! 0 = 10 \<and> build_bins 10 80 ! 3 = 40 \<and>
   build_bins 10 80 ! 7 = 80 \<and> sorted (build_bins 10 80)"
proof -
  have h: "(10::int) < 80" by simp
  note t = build_bins_linear [OF h]
  have b: "(80::int) - 10 < 2 ^ 49" by simp
  from t b have f: "\<forall>i<7. build_bins 10 80 ! i = 10 + (int i * (80 - 10)) div 7"
    by blast
  from f have "build_bins 10 80 ! 3 = 10 + (int 3 * (80 - 10)) div 7" by simp
  then have "build_bins 10 80 ! 3 = 40" by simp
  then show ?thesis using t by simp
qed

text \<open>
  C4 as the claim states it fails for large totals: with \<open>min_val = 0\<close> and
  \<open>max_val = 2 ^ 60\<close> the second boundary is 164703072086692416, the rounded product,
  and not \<open>floor(2 ^ 60 / 7) = 164703072086692425\<close>. The boundaries are non-decreasing
  all the same.
\<close>

theorem build_bins_formula_counterexample:
  "build_bins 0 (2 ^ 60) ! 1 = 164703072086692416 \<and>
   0 + (1 * (2 ^ 60 - 0)) div 7 = (164703072086692425 :: int)"
proof
  have "fl (2 ^ 60 / 7) = of_int (rhe ((2 ^ 60 / 7) / 2 ^ 5)) * 2 ^ 5"
    by (rule fl_large) simp_all
  also have "((2::rat) ^ 60 / 7) / 2 ^ 5 = of_int (2 ^ 60) / of_int 224"
    by simp
  also have "of_int (rhe (of_int (2 ^ 60) / of_int 224)) * 2 ^ 5 = (164703072086692416 :: rat)"
    by (simp only: rhe_div) simp
  finally have s: "true_div (2 ^ 60) 7 = 164703072086692416"
    by (simp add: true_div_def)
  have "fl 164703072086692416 = of_int (rhe (164703072086692416 / 2 ^ 5)) * 2 ^ 5"
    by (rule fl_large) simp_all
  also have "(164703072086692416::rat) / 2 ^ 5 = of_int 5146971002709138"
    by simp
  also have "of_int (rhe (of_int 5146971002709138)) * 2 ^ 5 = (164703072086692416 :: rat)"
    by (simp only: rhe_int) simp
  finally have t: "fl 164703072086692416 = 164703072086692416" .
  have one: "py_float (int 1) = 1"
    using py_float_small [of 1] by simp
  have lt: "(0::int) < 2 ^ 60" by simp
  show "build_bins 0 (2 ^ 60) ! 1 = 164703072086692416"
    using one s by (subst build_bins_general [OF lt]) (simp add: fmul_def t trunc_def)
  show "0 + (1 * (2 ^ 60 - 0)) div 7 = (164703072086692425 :: int)"
    by simp
qed

section \<open>The colours of the ends of the scale\<close>

















end
